theory Spec2Isabelle
  imports Main
begin

section \<open>Data model of \<open>groupCache.ts\<close>\<close>

text \<open>
  \<open>GroupCache\<close> keeps two JavaScript objects used as dictionaries from subscription id to
  \<open>Promise<Group[]>\<close> (\<open>current\<close> and \<open>updates\<close>) and the tracked default subscription.
  The code is asynchronous: it creates promises, attaches reactions to them and arms a
  500ms timer.  The embedding therefore carries an explicit promise store and the pieces of
  the JavaScript run time the class relies on: the settled state of every promise, the
  reactions registered with \<open>then\<close>, the armed timers and a clock in milliseconds.

  The two dictionaries are object literals \<open>{}\<close>, so reading \<open>this.updates[id]\<close> or
  \<open>this.current[id]\<close> finds an own property if there is one and otherwise what the object
  inherits from \<open>Object.prototype\<close>: for an id such as \<open>constructor\<close> the read yields a
  function, which is truthy and is not a promise.  The embedding keeps the own properties in
  a map and models the read with \<open>property\<close>.  \<open>dispose\<close> only releases the listener of
  the subscription watcher, and \<open>loadGroupsOld\<close> is never called; neither is modelled.
\<close>

type_synonym pid = nat

record Group =
  group_id :: string
  group_name :: string

record Subscription =
  sub_id :: string
  tenantId :: string
  isDefault :: bool

text \<open>\<open>ServiceClientCredentials\<close> of \<open>ms-rest\<close> is opaque to the cache.\<close>

datatype credentials = Credentials string

text \<open>
  \<open>UIError\<close> is what \<open>fetchGroups\<close> throws; \<open>ListingError\<close> stands for any value the remote
  listing rejects with; \<open>TypeError\<close> is what the run time throws when \<open>update.catch\<close> is
  called and \<open>update\<close> is not a promise.
\<close>

datatype error = UIError string | ListingError string | TypeError

text \<open>
  What reading a property of one of the two dictionaries can yield, other than
  \<open>undefined\<close>: an own property, which is a promise, or the member of \<open>Object.prototype\<close> of
  that name.
\<close>

datatype jsval = Own pid | Inherited string

text \<open>
  The state of a promise.  \<open>Follows q\<close> is a promise that has been resolved with the promise
  \<open>q\<close> and is locked in to take over \<open>q\<close>'s outcome once \<open>q\<close> settles.  \<open>FulfilledMember m\<close>
  is a promise fulfilled not with a list of groups but with the member \<open>m\<close> of
  \<open>Object.prototype\<close>.
\<close>

datatype pstate =
    Pending
  | Follows pid
  | Fulfilled "Group list"
  | FulfilledMember string
  | Rejected error

text \<open>
  How each promise of the class comes into being:
  \<^item> \<open>LoadGroups credentials subscription\<close>: the call \<open>this.loadGroups(credentials, subscription)\<close>,
    settled by the remote listing;
  \<^item> \<open>TimerP current\<close>: \<open>new Promise(resolve => setTimeout(resolve, 500, current))\<close>;
  \<^item> \<open>CatchP update current\<close>: \<open>update.catch(() => current)\<close>;
  \<^item> \<open>RaceP t c\<close>: \<open>Promise.race([t, c])\<close>;
  \<^item> \<open>AsyncP\<close>: the promise an \<open>async\<close> method hands to its caller.
\<close>

datatype pkind =
    LoadGroups credentials Subscription
  | TimerP jsval
  | CatchP pid jsval
  | RaceP pid pid
  | AsyncP

type_synonym promise = "pkind \<times> pstate"

text \<open>What the remote listing operation ends with.\<close>

datatype outcome = Succeeds "Group list" | Fails error

record state =
  current :: "string \<rightharpoonup> pid"
  updates :: "string \<rightharpoonup> pid"
  defaultSubscription :: "Subscription option"
  promises :: "promise list"
  handlers :: "(pid \<times> string) list"
  timers :: "(nat \<times> pid \<times> jsval) list"
  now :: nat
  console :: "error list"
  lookups :: "string list"
  subscriptions :: "Subscription list"
  logins :: "(string \<times> credentials) list"

text \<open>
  \<open>handlers\<close> holds the reactions registered by \<open>update.then(...)\<close> in \<open>updateGroups\<close>: the
  promise and the \<open>subscription.id\<close> captured by the two closures.  \<open>timers\<close> holds the armed
  \<open>setTimeout\<close> calls: due time, the promise whose \<open>resolve\<close> is called, and the argument
  passed to it.  \<open>console\<close> collects what \<open>console.error\<close> printed.  \<open>lookups\<close> records the
  tenant ids passed to \<open>loginWatcher.lookupCredentials\<close>.  \<open>subscriptions\<close> and \<open>logins\<close> are the
  two collaborators: \<open>subscriptionWatcher.subscriptions\<close> and the table behind
  \<open>loginWatcher.lookupCredentials\<close>.
\<close>

section \<open>Reading the dictionaries\<close>

text \<open>The names of the members of \<open>Object.prototype\<close>.\<close>

definition object_prototype :: "string list" where
  "object_prototype =
     [''constructor'', ''__proto__'', ''hasOwnProperty'', ''isPrototypeOf'',
      ''propertyIsEnumerable'', ''toLocaleString'', ''toString'', ''valueOf'',
      ''__defineGetter__'', ''__defineSetter__'', ''__lookupGetter__'', ''__lookupSetter__'']"

text \<open>
  \<open>obj[k]\<close> for a dictionary with the own properties \<open>obj\<close>; \<open>None\<close> is \<open>undefined\<close>, the only
  falsy result.
\<close>

definition property :: "(string \<rightharpoonup> pid) \<Rightarrow> string \<Rightarrow> jsval option" where
  "property obj k =
     (case obj k of
        Some p \<Rightarrow> Some (Own p)
      | None \<Rightarrow> if k \<in> set object_prototype then Some (Inherited k) else None)"

section \<open>Promises\<close>

definition pstate_of :: "promise list \<Rightarrow> pid \<Rightarrow> pstate" where
  "pstate_of ps p = (if p < length ps then snd (ps ! p) else Pending)"

text \<open>Resolving a promise with the promise \<open>q\<close>: take over a settled outcome, else follow.\<close>

definition adopt :: "promise list \<Rightarrow> pid \<Rightarrow> pstate" where
  "adopt ps q =
     (case pstate_of ps q of
        Fulfilled g \<Rightarrow> Fulfilled g
      | FulfilledMember m \<Rightarrow> FulfilledMember m
      | Rejected e \<Rightarrow> Rejected e
      | _ \<Rightarrow> Follows q)"

text \<open>
  Resolving a promise with what a dictionary read yielded: a promise is adopted, a member of
  \<open>Object.prototype\<close> has no \<open>then\<close> and fulfils the promise as it is.
\<close>

definition resolved_with :: "promise list \<Rightarrow> jsval \<Rightarrow> pstate" where
  "resolved_with ps v = (case v of Own q \<Rightarrow> adopt ps q | Inherited m \<Rightarrow> FulfilledMember m)"

text \<open>
  One promise reacting to the promises it depends on.  \<open>update.catch(() => current)\<close> passes a
  fulfilment through and, on rejection, is resolved with \<open>current\<close>.  \<open>Promise.race\<close> settles
  the way the first settled member did; the members are looked at in array order.
\<close>

definition react :: "promise list \<Rightarrow> promise \<Rightarrow> promise" where
  "react ps pr =
     (case snd pr of
        Follows q \<Rightarrow> (fst pr, adopt ps q)
      | Pending \<Rightarrow>
          (case fst pr of
             CatchP u cur \<Rightarrow>
               (case pstate_of ps u of
                  Fulfilled g \<Rightarrow> (fst pr, Fulfilled g)
                | FulfilledMember m \<Rightarrow> (fst pr, FulfilledMember m)
                | Rejected e \<Rightarrow> (fst pr, resolved_with ps cur)
                | _ \<Rightarrow> pr)
           | RaceP t c \<Rightarrow>
               (case pstate_of ps t of
                  Fulfilled g \<Rightarrow> (fst pr, Fulfilled g)
                | FulfilledMember m \<Rightarrow> (fst pr, FulfilledMember m)
                | Rejected e \<Rightarrow> (fst pr, Rejected e)
                | _ \<Rightarrow>
                   (case pstate_of ps c of
                      Fulfilled g \<Rightarrow> (fst pr, Fulfilled g)
                    | FulfilledMember m \<Rightarrow> (fst pr, FulfilledMember m)
                    | Rejected e \<Rightarrow> (fst pr, Rejected e)
                    | _ \<Rightarrow> pr))
           | _ \<Rightarrow> pr)
      | _ \<Rightarrow> pr)"

text \<open>
  Running the job queue until it is empty.  Every promise is created after the promises it
  depends on, so one pass in order of creation, each promise seeing the promises before it
  as already updated, reaches the state in which no reaction is left to run.
\<close>

fun propagate_from :: "promise list \<Rightarrow> promise list \<Rightarrow> promise list" where
  "propagate_from done [] = done"
| "propagate_from done (pr # rest) = propagate_from (done @ [react done pr]) rest"

definition propagate :: "promise list \<Rightarrow> promise list" where
  "propagate ps = propagate_from [] ps"

definition drain :: "state \<Rightarrow> state" where
  "drain s = s\<lparr>promises := propagate (promises s)\<rparr>"

definition new_promise :: "pkind \<Rightarrow> pstate \<Rightarrow> state \<Rightarrow> pid \<times> state" where
  "new_promise k st s = (length (promises s), s\<lparr>promises := promises s @ [(k, st)]\<rparr>)"

section \<open>The methods of \<open>GroupCache\<close>\<close>

definition lookupCredentials :: "string \<Rightarrow> state \<Rightarrow> credentials option \<times> state" where
  "lookupCredentials tenant s =
     (map_of (logins s) tenant, s\<lparr>lookups := lookups s @ [tenant]\<rparr>)"

text \<open>
  \<open>loadGroups\<close> builds the client and awaits \<open>client.resourceGroups.list()\<close>: its promise is
  pending until the remote listing settles it.
\<close>

definition loadGroups :: "credentials \<Rightarrow> Subscription \<Rightarrow> state \<Rightarrow> pid \<times> state" where
  "loadGroups creds sub s = new_promise (LoadGroups creds sub) Pending s"

text \<open>
  \<open>updateGroups\<close>, statement by statement.  Line 60 reads \<open>this.updates[subscription.id]\<close>;
  only \<open>undefined\<close> makes \<open>!update\<close> true, and then the id is not the name of a member of
  \<open>Object.prototype\<close>, so the assignment of line 64 creates an own property.  Line 75 reads
  \<open>this.current[subscription.id]\<close>.  In line 77 the array is built from left to right: the
  timer promise is created and the timer armed, then \<open>update.catch\<close> is called, which throws
  a \<open>TypeError\<close> when \<open>update\<close> is a member of \<open>Object.prototype\<close>; the method being \<open>async\<close>,
  the exception rejects the promise it returns.
\<close>

definition updateGroups :: "credentials \<Rightarrow> Subscription \<Rightarrow> state \<Rightarrow> pid \<times> state" where
  "updateGroups creds sub s =
     (let (update, s1) =
            (case property (updates s) (sub_id sub) of
               Some v \<Rightarrow> (v, s)
             | None \<Rightarrow>
                 (let (u, s') = loadGroups creds sub s;
                      s'' = s'\<lparr>updates := (updates s')(sub_id sub \<mapsto> u)\<rparr>
                  in (Own u, s''\<lparr>handlers := handlers s'' @ [(u, sub_id sub)]\<rparr>)))
      in case property (current s1) (sub_id sub) of
           Some cur \<Rightarrow>
             (let (t, s2) = new_promise (TimerP cur) Pending s1;
                  s3 = s2\<lparr>timers := timers s2 @ [(now s2 + 500, t, cur)]\<rparr>
              in case update of
                   Own u \<Rightarrow>
                     (let (c, s4) = new_promise (CatchP u cur) Pending s3;
                          (r, s5) = new_promise (RaceP t c) Pending s4
                      in new_promise AsyncP (Follows r) s5)
                 | Inherited m \<Rightarrow> new_promise AsyncP (Rejected TypeError) s3)
         | None \<Rightarrow>
             (case update of
                Own u \<Rightarrow> new_promise AsyncP (Follows u) s1
              | Inherited m \<Rightarrow> new_promise AsyncP (FulfilledMember m) s1))"

definition not_logged_in :: string where
  \<open>not_logged_in = ''Not logged in, use "az login" to do so.''\<close>

definition fetchGroups :: "state \<Rightarrow> pid \<times> state" where
  "fetchGroups s =
     (case defaultSubscription s of
        None \<Rightarrow> new_promise AsyncP (Rejected (UIError not_logged_in)) s
      | Some sub \<Rightarrow>
          (let (credentials, s1) = lookupCredentials (tenantId sub) s
           in case credentials of
                None \<Rightarrow> new_promise AsyncP (Rejected (UIError not_logged_in)) s1
              | Some creds \<Rightarrow>
                  (let (p, s2) = updateGroups creds sub s1
                   in new_promise AsyncP (Follows p) s2)))"

definition onSubscriptionUpdated :: "state \<Rightarrow> state" where
  "onSubscriptionUpdated s =
     (let defaultSub = find isDefault (subscriptions s)
      in if map_option sub_id (defaultSubscription s) \<noteq> map_option sub_id defaultSub
         then
           (let s1 = s\<lparr>defaultSubscription := defaultSub\<rparr>
            in case defaultSub of
                 None \<Rightarrow> s1
               | Some sub \<Rightarrow>
                   (let (credentials, s2) = lookupCredentials (tenantId sub) s1
                    in case credentials of
                         None \<Rightarrow> s2
                       | Some creds \<Rightarrow> snd (updateGroups creds sub s2)))
         else s)"

text \<open>The constructor: empty dictionaries, then \<open>this.onSubscriptionUpdated()\<close>.\<close>

definition construct :: "(string \<times> credentials) list \<Rightarrow> Subscription list \<Rightarrow> state" where
  "construct lg subs =
     onSubscriptionUpdated
       \<lparr>current = Map.empty, updates = Map.empty, defaultSubscription = None,
        promises = [], handlers = [], timers = [], now = 0, console = [], lookups = [],
        subscriptions = subs, logins = lg\<rparr>"

section \<open>The run time around the class\<close>

text \<open>
  The two closures passed to \<open>update.then\<close>: on success the entry of \<open>updates\<close> is deleted and
  \<open>update\<close> becomes the entry of \<open>current\<close>; on failure the entry of \<open>updates\<close> is deleted and
  the error is printed.  The closures exist only for an id for which line 60 read
  \<open>undefined\<close>, which is not the name of a member of \<open>Object.prototype\<close>; so the assignment and the
  \<open>delete\<close> act on own properties.
\<close>

definition run_handler :: "pid \<Rightarrow> outcome \<Rightarrow> string \<Rightarrow> state \<Rightarrow> state" where
  "run_handler update oc k s =
     (case oc of
        Succeeds groups \<Rightarrow>
          (let s1 = s\<lparr>updates := (updates s)(k := None)\<rparr>
           in s1\<lparr>current := (current s1)(k \<mapsto> update)\<rparr>)
      | Fails err \<Rightarrow>
          (let s1 = s\<lparr>updates := (updates s)(k := None)\<rparr>
           in s1\<lparr>console := console s1 @ [err]\<rparr>))"

fun run_handlers :: "pid \<Rightarrow> outcome \<Rightarrow> (pid \<times> string) list \<Rightarrow> state \<Rightarrow> state" where
  "run_handlers p oc [] s = s"
| "run_handlers p oc ((q, k) # hs) s =
     run_handlers p oc hs (if q = p then run_handler p oc k s else s)"

fun is_load :: "pkind \<Rightarrow> bool" where
  "is_load (LoadGroups creds sub) = True"
| "is_load _ = False"

fun settled_as :: "outcome \<Rightarrow> pstate" where
  "settled_as (Succeeds g) = Fulfilled g"
| "settled_as (Fails e) = Rejected e"

text \<open>
  The remote listing behind the pending promise \<open>p\<close> of a \<open>loadGroups\<close> call settles: the
  promise takes the outcome, the reactions registered on it run, and the job queue is run
  until empty.  Nothing happens for a promise that is not a pending \<open>loadGroups\<close> call.
\<close>

definition settle_listing :: "pid \<Rightarrow> outcome \<Rightarrow> state \<Rightarrow> state" where
  "settle_listing p oc s =
     (if p < length (promises s) \<and> is_load (fst (promises s ! p)) \<and> snd (promises s ! p) = Pending
      then
        (let s1 = s\<lparr>promises := (promises s)[p := (fst (promises s ! p), settled_as oc)]\<rparr>;
             hs = handlers s1;
             s2 = s1\<lparr>handlers := filter (\<lambda>(q, k). q \<noteq> p) hs\<rparr>
         in drain (run_handlers p oc hs s2))
      else s)"

text \<open>
  \<open>resolve(v)\<close> of the promise \<open>t\<close>: with a promise, \<open>t\<close> follows it; with a member of
  \<open>Object.prototype\<close>, \<open>t\<close> is fulfilled with it.  A promise that is already resolved ignores
  the call.
\<close>

definition resolve_with :: "pid \<Rightarrow> jsval \<Rightarrow> state \<Rightarrow> state" where
  "resolve_with t v s =
     (if t < length (promises s) \<and> snd (promises s ! t) = Pending
      then s\<lparr>promises := (promises s)[t :=
             (fst (promises s ! t),
              case v of Own q \<Rightarrow> Follows q | Inherited m \<Rightarrow> FulfilledMember m)]\<rparr>
      else s)"

text \<open>The timers that are due fire one after the other, each followed by its jobs.\<close>

fun fire :: "(nat \<times> pid \<times> jsval) list \<Rightarrow> state \<Rightarrow> state" where
  "fire [] s = s"
| "fire ((dl, t, v) # due) s = fire due (drain (resolve_with t v s))"

definition elapse :: "nat \<Rightarrow> state \<Rightarrow> state" where
  "elapse d s =
     (let s1 = s\<lparr>now := now s + d\<rparr>;
          due = filter (\<lambda>(dl, t, v). dl \<le> now s1) (timers s1);
          s2 = s1\<lparr>timers := filter (\<lambda>(dl, t, v). \<not> dl \<le> now s1) (timers s1)\<rparr>
      in fire due s2)"

text \<open>
  What can happen to a \<open>GroupCache\<close>: a client calls \<open>fetchGroups()\<close>; the subscription
  watcher has a new list and fires \<open>onUpdated\<close>; the login watcher's table changes (the cache
  does not listen to it); the remote listing of a \<open>loadGroups\<close> call settles; time passes.
  An event is one task of the event loop together with the jobs it causes, so \<open>step\<close> ends by
  running the job queue until it is empty.  A call that a client makes from one of its own
  jobs, after a listing has settled and before the reactions of \<open>updateGroups\<close> have run,
  finds the entry of \<open>updates\<close> still there and ends like the call made just before the
  listing settles; it is represented by that order of events.
\<close>

datatype event =
    Fetch
  | SubscriptionsUpdated "Subscription list"
  | LoginsChanged "(string \<times> credentials) list"
  | ListingSettles pid outcome
  | Elapse nat

fun step :: "event \<Rightarrow> state \<Rightarrow> state" where
  "step Fetch s = drain (snd (fetchGroups s))"
| "step (SubscriptionsUpdated subs) s = drain (onSubscriptionUpdated (s\<lparr>subscriptions := subs\<rparr>))"
| "step (LoginsChanged lg) s = s\<lparr>logins := lg\<rparr>"
| "step (ListingSettles p oc) s = settle_listing p oc s"
| "step (Elapse d) s = elapse d s"

definition run :: "event list \<Rightarrow> state \<Rightarrow> state" where
  "run es s = fold step es s"

inductive reachable :: "state \<Rightarrow> bool" where
  reachable_construct: "reachable (drain (construct lg subs))"
| reachable_step: "reachable s \<Longrightarrow> reachable (step e s)"

section \<open>Invariants of the cache\<close>

definition settled :: "pstate \<Rightarrow> bool" where
  "settled st =
     (case st of
        Fulfilled g \<Rightarrow> True | FulfilledMember m \<Rightarrow> True | Rejected e \<Rightarrow> True | _ \<Rightarrow> False)"

text \<open>
  Every entry of \<open>updates\<close> is a pending \<open>loadGroups\<close> call for that subscription id whose
  completion handling is registered.
\<close>

definition updates_ok :: "state \<Rightarrow> bool" where
  "updates_ok s =
     (\<forall>k u. updates s k = Some u \<longrightarrow>
        u < length (promises s) \<and> snd (promises s ! u) = Pending \<and>
        (\<exists>c sub. fst (promises s ! u) = LoadGroups c sub \<and> sub_id sub = k) \<and>
        (u, k) \<in> set (handlers s))"

text \<open>Every pending \<open>loadGroups\<close> call is the entry of \<open>updates\<close> for its subscription id.\<close>

definition loads_ok :: "state \<Rightarrow> bool" where
  "loads_ok s =
     (\<forall>i c sub. i < length (promises s) \<longrightarrow> promises s ! i = (LoadGroups c sub, Pending) \<longrightarrow>
        updates s (sub_id sub) = Some i)"

text \<open>Every entry of \<open>current\<close> is a fulfilled promise.\<close>

definition current_ok :: "state \<Rightarrow> bool" where
  "current_ok s =
     (\<forall>k p. current s k = Some p \<longrightarrow>
        p < length (promises s) \<and> (\<exists>g. snd (promises s ! p) = Fulfilled g))"

definition handlers_ok :: "state \<Rightarrow> bool" where
  "handlers_ok s = (\<forall>p k. (p, k) \<in> set (handlers s) \<longrightarrow> updates s k = Some p)"

definition timers_ok :: "state \<Rightarrow> bool" where
  "timers_ok s =
     (\<forall>dl t v. (dl, t, v) \<in> set (timers s) \<longrightarrow>
        t < length (promises s) \<and> (\<exists>x. fst (promises s ! t) = TimerP x))"

text \<open>No own property of the two dictionaries has the name of a member of \<open>Object.prototype\<close>.\<close>

definition own_keys_ok :: "state \<Rightarrow> bool" where
  "own_keys_ok s =
     (\<forall>k \<in> set object_prototype. updates s k = None \<and> current s k = None)"

definition cache_inv :: "state \<Rightarrow> bool" where
  "cache_inv s =
     (updates_ok s \<and> loads_ok s \<and> current_ok s \<and> handlers_ok s \<and> timers_ok s \<and> own_keys_ok s)"

text \<open>
  The promise \<open>updateGroups\<close> works with (its variable \<open>update\<close>) when line 60 does not read a
  member of \<open>Object.prototype\<close>: the entry of \<open>updates\<close> if there is one, else the promise of
  the \<open>loadGroups\<close> call it makes, which is the next promise created.  \<open>started\<close> and \<open>answer\<close>
  are the promises a call adds to the store.
\<close>

definition update_of :: "Subscription \<Rightarrow> state \<Rightarrow> pid" where
  "update_of sub s =
     (case updates s (sub_id sub) of Some u \<Rightarrow> u | None \<Rightarrow> length (promises s))"

definition started :: "credentials \<Rightarrow> Subscription \<Rightarrow> state \<Rightarrow> promise list" where
  "started c sub s =
     (case property (updates s) (sub_id sub) of
        Some v \<Rightarrow> [] | None \<Rightarrow> [(LoadGroups c sub, Pending)])"

definition answer :: "Subscription \<Rightarrow> state \<Rightarrow> promise list" where
  "answer sub s =
     (let n = length (promises s) +
              (case property (updates s) (sub_id sub) of Some v \<Rightarrow> 0 | None \<Rightarrow> 1)
      in case property (current s) (sub_id sub) of
           None \<Rightarrow>
             (case property (updates s) (sub_id sub) of
                Some (Inherited m) \<Rightarrow> [(AsyncP, FulfilledMember m)]
              | _ \<Rightarrow> [(AsyncP, Follows (update_of sub s))])
         | Some cur \<Rightarrow>
             (case property (updates s) (sub_id sub) of
                Some (Inherited m) \<Rightarrow> [(TimerP cur, Pending), (AsyncP, Rejected TypeError)]
              | _ \<Rightarrow>
                 [(TimerP cur, Pending), (CatchP (update_of sub s) cur, Pending),
                  (RaceP n (n + 1), Pending), (AsyncP, Follows (n + 2))]))"

section \<open>A small cache for examples\<close>

definition tenant_A :: string where
  "tenant_A = ''tenant-a''"

definition sub_A :: Subscription where
  "sub_A = \<lparr>sub_id = ''sub-a'', tenantId = tenant_A, isDefault = True\<rparr>"

definition sub_A_moved :: Subscription where
  "sub_A_moved = \<lparr>sub_id = ''sub-a'', tenantId = ''tenant-b'', isDefault = True\<rparr>"

definition creds_A :: credentials where
  "creds_A = Credentials ''token''"

definition groups_old :: "Group list" where
  "groups_old = [\<lparr>group_id = ''/subscriptions/sub-a/resourceGroups/one'', group_name = ''one''\<rparr>]"

definition groups_new :: "Group list" where
  "groups_new = groups_old @
     [\<lparr>group_id = ''/subscriptions/sub-a/resourceGroups/two'', group_name = ''two''\<rparr>]"

text \<open>A cache constructed while logged in, with \<open>sub_A\<close> as the default subscription.\<close>

definition cache_started :: state where
  "cache_started = drain (construct [(tenant_A, creds_A)] [sub_A])"

text \<open>The same cache once its first listing has succeeded.\<close>

definition cache_loaded :: state where
  "cache_loaded = step (ListingSettles 0 (Succeeds groups_old)) cache_started"

text \<open>A cache constructed while logged out.\<close>

definition cache_logged_out :: state where
  "cache_logged_out = drain (construct [] [sub_A])"

text \<open>A cache constructed with no subscription.\<close>

definition cache_empty :: state where
  "cache_empty = drain (construct [] [])"

text \<open>
  A subscription whose id is the name of a member of \<open>Object.prototype\<close>, and a cache
  constructed while logged in with it as the default subscription.
\<close>

definition sub_proto :: Subscription where
  "sub_proto = \<lparr>sub_id = ''constructor'', tenantId = tenant_A, isDefault = True\<rparr>"

definition cache_proto :: state where
  "cache_proto = drain (construct [(tenant_A, creds_A)] [sub_proto])"

section \<open>Notions used in the statements\<close>


text \<open>The time that passes during a sequence of events.\<close>

fun elapsed :: "event list \<Rightarrow> nat" where
  "elapsed [] = 0"
| "elapsed (Elapse d # es) = d + elapsed es"
| "elapsed (e # es) = elapsed es"

text \<open>The event in which the remote listing behind the promise \<open>u\<close> settles.\<close>

fun settles :: "pid \<Rightarrow> event \<Rightarrow> bool" where
  "settles u (ListingSettles p oc) = (p = u)"
| "settles u _ = False"

text \<open>
  The promises of a call of \<open>updateGroups\<close> that found a cached result \<open>cur\<close> (fulfilled with
  \<open>g0\<close>) and waits: the \<open>loadGroups\<close> call \<open>u\<close> is pending, and so are the timer promise \<open>t\<close>,
  the \<open>catch\<close> promise \<open>c\<close> and the race \<open>r\<close> that the returned promise \<open>a\<close> follows.
\<close>

definition race_store ::
  "pid \<Rightarrow> pid \<Rightarrow> Group list \<Rightarrow> pid \<Rightarrow> pid \<Rightarrow> pid \<Rightarrow> pid \<Rightarrow> promise list \<Rightarrow> bool" where
  "race_store u cur g0 t c r a ps =
     (a < length ps \<and> u < t \<and> cur < t \<and> t < c \<and> c < r \<and> r < a \<and>
      is_load (fst (ps ! u)) \<and> snd (ps ! u) = Pending \<and>
      snd (ps ! cur) = Fulfilled g0 \<and>
      ps ! t = (TimerP (Own cur), Pending) \<and>
      ps ! c = (CatchP u (Own cur), Pending) \<and>
      ps ! r = (RaceP t c, Pending) \<and>
      ps ! a = (AsyncP, Follows r))"

text \<open>The same call, with its timer armed for the time \<open>dl\<close> that has not come yet.\<close>

definition racing ::
  "pid \<Rightarrow> pid \<Rightarrow> Group list \<Rightarrow> nat \<Rightarrow> pid \<Rightarrow> pid \<Rightarrow> pid \<Rightarrow> pid \<Rightarrow> state \<Rightarrow> bool" where
  "racing u cur g0 dl t c r a s =
     (race_store u cur g0 t c r a (promises s) \<and>
      (dl, t, Own cur) \<in> set (timers s) \<and>
      (\<forall>e \<in> set (timers s). fst (snd e) = t \<longrightarrow> e = (dl, t, Own cur)) \<and>
      now s < dl)"

text \<open>
  A call of \<open>updateGroups\<close> that found no cached result and waits: the returned promise \<open>a\<close>
  follows the pending \<open>loadGroups\<close> call \<open>u\<close>.
\<close>

definition waiting :: "pid \<Rightarrow> pid \<Rightarrow> promise list \<Rightarrow> bool" where
  "waiting u a ps =
     (a < length ps \<and> u < a \<and> is_load (fst (ps ! u)) \<and> snd (ps ! u) = Pending \<and>
      ps ! a = (AsyncP, Follows u))"

text \<open>What the synchronous methods do to the run time: they only add promises and timers.\<close>

definition extends :: "state \<Rightarrow> state \<Rightarrow> bool" where
  "extends s s' =
     ((\<exists>xs. promises s' = promises s @ xs) \<and>
      (\<exists>ts. timers s' = timers s @ ts \<and> (\<forall>e \<in> set ts. length (promises s) \<le> fst (snd e))) \<and>
      now s' = now s)"

text \<open>The timers of a list all belong to timer promises of the store.\<close>

definition timer_entries :: "(nat \<times> pid \<times> jsval) list \<Rightarrow> promise list \<Rightarrow> bool" where
  "timer_entries due ps =
     (\<forall>e \<in> set due. fst (snd e) < length ps \<and> (\<exists>x. fst (ps ! fst (snd e)) = TimerP x))"

text \<open>
  The remote listing is invoked once for every \<open>loadGroups\<close> call; \<open>listings k s\<close> counts the
  calls made so far for the subscription id \<open>k\<close>.
\<close>

fun load_for :: "string \<Rightarrow> pkind \<Rightarrow> bool" where
  "load_for k (LoadGroups creds sub) = (sub_id sub = k)"
| "load_for k _ = False"

definition listings :: "string \<Rightarrow> state \<Rightarrow> nat" where
  "listings k s = length (filter (load_for k) (map fst (promises s)))"

text \<open>Several calls of \<open>updateGroups\<close> made one after the other, with nothing in between.\<close>

fun updateGroups_all :: "(credentials \<times> Subscription) list \<Rightarrow> state \<Rightarrow> state" where
  "updateGroups_all [] s = s"
| "updateGroups_all ((creds, sub) # calls) s = updateGroups_all calls (snd (updateGroups creds sub s))"

text \<open>
  The promise \<open>f\<close> returned by \<open>fetchGroups\<close> has been resolved with the promise \<open>a\<close> returned
  by \<open>updateGroups\<close>: it follows \<open>a\<close> until \<open>a\<close> is settled and has \<open>a\<close>'s outcome from then on.
\<close>

definition following :: "pid \<Rightarrow> pid \<Rightarrow> promise list \<Rightarrow> bool" where
  "following a f ps =
     (f < length ps \<and> a < f \<and> snd (ps ! a) \<noteq> Pending \<and>
      (snd (ps ! f) = Follows a \<or> (settled (snd (ps ! a)) \<and> snd (ps ! f) = snd (ps ! a))))"

definition synced :: "pid \<Rightarrow> pid \<Rightarrow> promise list \<Rightarrow> bool" where
  "synced a f ps =
     (f < length ps \<and> a < f \<and> snd (ps ! a) \<noteq> Pending \<and>
      snd (ps ! f) = (if settled (snd (ps ! a)) then snd (ps ! a) else Follows a))"

text \<open>The state of the promise \<open>p\<close> after the events \<open>es\<close> have happened in the state \<open>s\<close>.\<close>

definition outcome_after :: "event list \<Rightarrow> state \<Rightarrow> pid \<Rightarrow> pstate" where
  "outcome_after es s p = pstate_of (promises (run es s)) p"

section \<open>Facts about the job queue\<close>

lemma length_propagate_from:
  "length (propagate_from done rest) = length done + length rest"
  by (induction rest arbitrary: "done") auto

lemma propagate_from_prefix:
  "i < length done \<Longrightarrow> propagate_from done rest ! i = done ! i"
  by (induction rest arbitrary: "done") (auto simp: nth_append)

lemma take_propagate_from:
  "take (length done) (propagate_from done rest) = done"
  by (rule nth_equalityI) (auto simp: length_propagate_from propagate_from_prefix)

lemma propagate_from_nth:
  "i < length rest \<Longrightarrow>
   propagate_from done rest ! (length done + i) =
     react (take (length done + i) (propagate_from done rest)) (rest ! i)"
proof (induction rest arbitrary: "done" i)
  case Nil
  then show ?case by simp
next
  case (Cons pr rest)
  show ?case
  proof (cases i)
    case 0
    have "propagate_from (done @ [react done pr]) rest ! length done = react done pr"
      using propagate_from_prefix [of "length done" "done @ [react done pr]" rest] by simp
    moreover have "take (length done) (propagate_from (done @ [react done pr]) rest) = done"
      by (rule nth_equalityI)
         (auto simp: length_propagate_from propagate_from_prefix nth_append)
    ultimately show ?thesis using 0 by simp
  next
    case (Suc j)
    then have "j < length rest" using Cons.prems by simp
    from Cons.IH [OF this, of "done @ [react done pr]"] show ?thesis
      using Suc by simp
  qed
qed

lemma length_propagate [simp]: "length (propagate ps) = length ps"
  by (simp add: propagate_def length_propagate_from)

lemma propagate_nth:
  "i < length ps \<Longrightarrow> propagate ps ! i = react (take i (propagate ps)) (ps ! i)"
  using propagate_from_nth [of i ps "[]"] by (simp add: propagate_def)

lemma pstate_of_take:
  "pstate_of (take i ps) q = (if q < i then pstate_of ps q else Pending)"
  by (auto simp: pstate_of_def)

lemma fst_react [simp]: "fst (react ps pr) = fst pr"
  by (auto simp: react_def split: pstate.splits pkind.splits)

lemma react_Fulfilled [simp]: "react ps (k, Fulfilled g) = (k, Fulfilled g)"
  by (simp add: react_def)

lemma react_FulfilledMember [simp]: "react ps (k, FulfilledMember m) = (k, FulfilledMember m)"
  by (simp add: react_def)

lemma react_Rejected [simp]: "react ps (k, Rejected e) = (k, Rejected e)"
  by (simp add: react_def)

lemma resolved_with_Own [simp]: "resolved_with ps (Own q) = adopt ps q"
  by (simp add: resolved_with_def)

lemma resolved_with_Inherited [simp]: "resolved_with ps (Inherited m) = FulfilledMember m"
  by (simp add: resolved_with_def)

lemma react_LoadGroups [simp]: "react ps (LoadGroups c sub, Pending) = (LoadGroups c sub, Pending)"
  by (simp add: react_def)

lemma react_TimerP [simp]: "react ps (TimerP v, Pending) = (TimerP v, Pending)"
  by (simp add: react_def)

lemma react_AsyncP [simp]: "react ps (AsyncP, Pending) = (AsyncP, Pending)"
  by (simp add: react_def)

lemma fst_propagate_nth: "i < length ps \<Longrightarrow> fst (propagate ps ! i) = fst (ps ! i)"
  by (simp add: propagate_nth)

text \<open>A settled promise never changes.\<close>

lemma react_settled: "settled (snd pr) \<Longrightarrow> react ps pr = pr"
  by (cases pr) (auto simp: settled_def split: pstate.splits)

lemma propagate_settled:
  "i < length ps \<Longrightarrow> settled (snd (ps ! i)) \<Longrightarrow> propagate ps ! i = ps ! i"
  by (simp add: propagate_nth react_settled)

lemma propagate_load:
  "i < length ps \<Longrightarrow> is_load (fst (ps ! i)) \<Longrightarrow> snd (ps ! i) = Pending \<Longrightarrow>
   propagate ps ! i = ps ! i"
  by (cases "ps ! i"; cases "fst (ps ! i)") (auto simp: propagate_nth)

section \<open>What each operation does to the state\<close>

lemma property_None_iff:
  "property obj k = None \<longleftrightarrow> obj k = None \<and> k \<notin> set object_prototype"
  by (simp add: property_def split: option.splits)

lemma property_Own_iff: "property obj k = Some (Own p) \<longleftrightarrow> obj k = Some p"
  by (simp add: property_def split: option.splits)

lemma property_Inherited_iff:
  "property obj k = Some (Inherited m) \<longleftrightarrow> obj k = None \<and> k \<in> set object_prototype \<and> m = k"
  by (auto simp: property_def split: option.splits)

lemma property_Some [simp]: "obj k = Some p \<Longrightarrow> property obj k = Some (Own p)"
  by (simp add: property_def)

lemma property_plain: "k \<notin> set object_prototype \<Longrightarrow> property obj k = map_option Own (obj k)"
  by (simp add: property_def split: option.splits)

lemmas updateGroups_unfold =
  updateGroups_def loadGroups_def new_promise_def Let_def

lemma updateGroups_current [simp]: "current (snd (updateGroups c sub s)) = current s"
  by (simp add: updateGroups_unfold split: option.splits jsval.splits)

lemma updateGroups_defaultSubscription [simp]:
  "defaultSubscription (snd (updateGroups c sub s)) = defaultSubscription s"
  by (simp add: updateGroups_unfold split: option.splits jsval.splits)

lemma updateGroups_lookups [simp]: "lookups (snd (updateGroups c sub s)) = lookups s"
  by (simp add: updateGroups_unfold split: option.splits jsval.splits)

lemma updateGroups_misc [simp]:
  "now (snd (updateGroups c sub s)) = now s"
  "console (snd (updateGroups c sub s)) = console s"
  "subscriptions (snd (updateGroups c sub s)) = subscriptions s"
  "logins (snd (updateGroups c sub s)) = logins s"
  by (simp_all add: updateGroups_unfold split: option.splits jsval.splits)

lemma updateGroups_updates_property:
  "updates (snd (updateGroups c sub s)) =
     (case property (updates s) (sub_id sub) of
        Some v \<Rightarrow> updates s
      | None \<Rightarrow> (updates s)(sub_id sub \<mapsto> length (promises s)))"
  by (simp add: updateGroups_unfold split: option.splits jsval.splits)

text \<open>For an id that is not the name of a member of \<open>Object.prototype\<close>, or has an entry.\<close>

lemma updateGroups_updates:
  "sub_id sub \<notin> set object_prototype \<or> updates s (sub_id sub) \<noteq> None \<Longrightarrow>
   updates (snd (updateGroups c sub s)) = (updates s)(sub_id sub \<mapsto> update_of sub s)"
  by (auto simp add: updateGroups_updates_property update_of_def property_def
        split: option.splits)

lemma updateGroups_promises:
  "promises (snd (updateGroups c sub s)) = promises s @ started c sub s @ answer sub s"
  by (simp add: updateGroups_unfold update_of_def started_def answer_def property_Own_iff
        split: option.splits jsval.splits)

lemma updateGroups_handlers:
  "handlers (snd (updateGroups c sub s)) =
     handlers s @ (case property (updates s) (sub_id sub) of Some v \<Rightarrow> []
                   | None \<Rightarrow> [(length (promises s), sub_id sub)])"
  by (simp add: updateGroups_unfold split: option.splits jsval.splits)

lemma updateGroups_timers:
  "timers (snd (updateGroups c sub s)) =
     timers s @ (case property (current s) (sub_id sub) of None \<Rightarrow> []
                 | Some cur \<Rightarrow> [(now s + 500, length (promises s) + length (started c sub s), cur)])"
  by (simp add: updateGroups_unfold started_def split: option.splits jsval.splits)

lemma updateGroups_fst:
  "fst (updateGroups c sub s) = length (promises (snd (updateGroups c sub s))) - 1"
  by (simp add: updateGroups_unfold split: option.splits jsval.splits)

section \<open>The invariants hold in every reachable state\<close>

lemmas updateGroups_effect =
  updateGroups_updates_property updateGroups_promises updateGroups_handlers updateGroups_timers
  update_of_def started_def answer_def

lemma updates_okD:
  "updates_ok s \<Longrightarrow> updates s k = Some u \<Longrightarrow>
   u < length (promises s) \<and> snd (promises s ! u) = Pending \<and>
   (\<exists>c sub. fst (promises s ! u) = LoadGroups c sub \<and> sub_id sub = k) \<and>
   (u, k) \<in> set (handlers s)"
  unfolding updates_ok_def by blast

lemma loads_okD:
  "loads_ok s \<Longrightarrow> i < length (promises s) \<Longrightarrow> promises s ! i = (LoadGroups c sub, Pending) \<Longrightarrow>
   updates s (sub_id sub) = Some i"
  unfolding loads_ok_def by blast

lemma current_okD:
  "current_ok s \<Longrightarrow> current s k = Some p \<Longrightarrow>
   p < length (promises s) \<and> (\<exists>g. snd (promises s ! p) = Fulfilled g)"
  unfolding current_ok_def by blast

lemma handlers_okD: "handlers_ok s \<Longrightarrow> (p, k) \<in> set (handlers s) \<Longrightarrow> updates s k = Some p"
  unfolding handlers_ok_def by blast

lemma timers_okD:
  "timers_ok s \<Longrightarrow> (dl, t, v) \<in> set (timers s) \<Longrightarrow>
   t < length (promises s) \<and> (\<exists>x. fst (promises s ! t) = TimerP x)"
  unfolding timers_ok_def by blast

lemma own_keys_okD:
  "own_keys_ok s \<Longrightarrow> k \<in> set object_prototype \<Longrightarrow> updates s k = None \<and> current s k = None"
  unfolding own_keys_ok_def by blast

lemma answer_not_load: "x \<in> set (answer sub s) \<Longrightarrow> \<not> is_load (fst x)"
  by (auto simp: answer_def Let_def split: option.splits jsval.splits)

lemma own_keys_ok_cong:
  "updates s' = updates s \<Longrightarrow> current s' = current s \<Longrightarrow> own_keys_ok s' = own_keys_ok s"
  by (simp add: own_keys_ok_def)

lemma updateGroups_updates_ok:
  assumes "updates_ok s"
  shows "updates_ok (snd (updateGroups c sub s))"
  unfolding updates_ok_def
proof (intro allI impI)
  fix k u
  assume new: "updates (snd (updateGroups c sub s)) k = Some u"
  show "u < length (promises (snd (updateGroups c sub s))) \<and>
        snd (promises (snd (updateGroups c sub s)) ! u) = Pending \<and>
        (\<exists>c' sub'. fst (promises (snd (updateGroups c sub s)) ! u) = LoadGroups c' sub' \<and>
           sub_id sub' = k) \<and>
        (u, k) \<in> set (handlers (snd (updateGroups c sub s)))"
  proof (cases "updates s k = Some u")
    case True
    with updates_okD [OF assms True] show ?thesis
      by (auto simp: updateGroups_promises updateGroups_handlers nth_append)
  next
    case False
    then have p: "property (updates s) (sub_id sub) = None"
      and k: "k = sub_id sub" and u: "u = length (promises s)"
      using new by (auto simp: updateGroups_updates_property split: option.splits if_splits)
    show ?thesis
      using p by (simp add: k u updateGroups_promises updateGroups_handlers started_def)
  qed
qed

lemma updateGroups_loads_ok:
  assumes "loads_ok s"
  shows "loads_ok (snd (updateGroups c sub s))"
  unfolding loads_ok_def
proof (intro allI impI)
  fix i c' sub'
  assume i: "i < length (promises (snd (updateGroups c sub s)))"
    and at: "promises (snd (updateGroups c sub s)) ! i = (LoadGroups c' sub', Pending)"
  show "updates (snd (updateGroups c sub s)) (sub_id sub') = Some i"
  proof (cases "i < length (promises s)")
    case True
    then have "promises s ! i = (LoadGroups c' sub', Pending)"
      using at by (simp add: updateGroups_promises nth_append)
    from loads_okD [OF assms True this] show ?thesis
      by (auto simp: updateGroups_updates_property property_None_iff split: option.splits)
  next
    case False
    let ?m = "length (promises s) + length (started c sub s)"
    have "\<not> ?m \<le> i"
    proof
      assume m: "?m \<le> i"
      then have "promises (snd (updateGroups c sub s)) ! i = answer sub s ! (i - ?m)"
        by (auto simp: updateGroups_promises nth_append)
      moreover have "i - ?m < length (answer sub s)"
        using i m by (simp add: updateGroups_promises)
      ultimately have "(LoadGroups c' sub', Pending) \<in> set (answer sub s)"
        using at by (metis nth_mem)
      from answer_not_load [OF this] show False by simp
    qed
    with False have st: "started c sub s \<noteq> []" and il: "i = length (promises s)"
      by (auto simp: started_def split: option.splits)
    then have p: "property (updates s) (sub_id sub) = None"
      by (auto simp: started_def split: option.splits)
    then have "promises (snd (updateGroups c sub s)) ! i = (LoadGroups c sub, Pending)"
      using il by (simp add: updateGroups_promises started_def)
    with at have "sub' = sub" by simp
    then show ?thesis
      using p il by (simp add: updateGroups_updates_property)
  qed
qed

lemma updateGroups_current_ok:
  assumes "current_ok s"
  shows "current_ok (snd (updateGroups c sub s))"
  unfolding current_ok_def
proof (intro allI impI)
  fix k p
  assume "current (snd (updateGroups c sub s)) k = Some p"
  then have "current s k = Some p" by simp
  from current_okD [OF assms this]
  show "p < length (promises (snd (updateGroups c sub s))) \<and>
        (\<exists>g. snd (promises (snd (updateGroups c sub s)) ! p) = Fulfilled g)"
    by (auto simp: updateGroups_promises nth_append)
qed

lemma updateGroups_handlers_ok:
  assumes "handlers_ok s"
  shows "handlers_ok (snd (updateGroups c sub s))"
  unfolding handlers_ok_def
proof (intro allI impI)
  fix p k
  assume "(p, k) \<in> set (handlers (snd (updateGroups c sub s)))"
  then consider "(p, k) \<in> set (handlers s)"
    | "property (updates s) (sub_id sub) = None" "p = length (promises s)" "k = sub_id sub"
    by (auto simp: updateGroups_handlers split: option.splits)
  then show "updates (snd (updateGroups c sub s)) k = Some p"
  proof cases
    case 1
    from handlers_okD [OF assms this] show ?thesis
      by (auto simp: updateGroups_updates_property property_None_iff split: option.splits)
  next
    case 2
    then show ?thesis by (simp add: updateGroups_updates_property)
  qed
qed

lemma updateGroups_timers_ok:
  assumes "timers_ok s"
  shows "timers_ok (snd (updateGroups c sub s))"
  unfolding timers_ok_def
proof (intro allI impI)
  fix dl t v
  assume "(dl, t, v) \<in> set (timers (snd (updateGroups c sub s)))"
  then consider "(dl, t, v) \<in> set (timers s)"
    | cur where "property (current s) (sub_id sub) = Some cur"
        "t = length (promises s) + length (started c sub s)"
    by (cases "property (current s) (sub_id sub)") (auto simp: updateGroups_timers)
  then show "t < length (promises (snd (updateGroups c sub s))) \<and>
             (\<exists>x. fst (promises (snd (updateGroups c sub s)) ! t) = TimerP x)"
  proof cases
    case 1
    from timers_okD [OF assms this] show ?thesis
      by (auto simp: updateGroups_promises nth_append)
  next
    case 2
    then show ?thesis
      by (simp add: updateGroups_promises nth_append answer_def Let_def
            split: option.splits jsval.splits)
  qed
qed

lemma updateGroups_own_keys_ok:
  assumes "own_keys_ok s"
  shows "own_keys_ok (snd (updateGroups c sub s))"
  unfolding own_keys_ok_def
proof
  fix k
  assume k: "k \<in> set object_prototype"
  from own_keys_okD [OF assms k]
  show "updates (snd (updateGroups c sub s)) k = None \<and>
        current (snd (updateGroups c sub s)) k = None"
    using k by (auto simp: updateGroups_updates_property property_None_iff split: option.splits)
qed

lemma updateGroups_inv: "cache_inv s \<Longrightarrow> cache_inv (snd (updateGroups c sub s))"
  by (simp add: cache_inv_def updateGroups_updates_ok updateGroups_loads_ok
        updateGroups_current_ok updateGroups_handlers_ok updateGroups_timers_ok
        updateGroups_own_keys_ok)

lemma react_Pending: "snd (react ps pr) = Pending \<Longrightarrow> snd pr = Pending"
  by (cases pr) (auto simp: react_def adopt_def split: pstate.splits pkind.splits)

lemma propagate_Pending:
  "i < length ps \<Longrightarrow> snd (propagate ps ! i) = Pending \<Longrightarrow> snd (ps ! i) = Pending"
  by (simp add: propagate_nth react_Pending)

lemma drain_fields [simp]:
  "current (drain s) = current s"
  "updates (drain s) = updates s"
  "defaultSubscription (drain s) = defaultSubscription s"
  "handlers (drain s) = handlers s"
  "timers (drain s) = timers s"
  "now (drain s) = now s"
  "console (drain s) = console s"
  "lookups (drain s) = lookups s"
  "subscriptions (drain s) = subscriptions s"
  "logins (drain s) = logins s"
  "promises (drain s) = propagate (promises s)"
  by (simp_all add: drain_def)

lemma drain_inv:
  assumes "cache_inv s"
  shows "cache_inv (drain s)"
proof -
  have u: "updates_ok s" and l: "loads_ok s" and c: "current_ok s"
    and h: "handlers_ok s" and t: "timers_ok s" and o: "own_keys_ok s"
    using assms by (simp_all add: cache_inv_def)
  have "updates_ok (drain s)"
    unfolding updates_ok_def
  proof (intro allI impI)
    fix k p
    assume "updates (drain s) k = Some p"
    then have "updates s k = Some p" by simp
    from updates_okD [OF u this]
    show "p < length (promises (drain s)) \<and> snd (promises (drain s) ! p) = Pending \<and>
          (\<exists>c sub. fst (promises (drain s) ! p) = LoadGroups c sub \<and> sub_id sub = k) \<and>
          (p, k) \<in> set (handlers (drain s))"
      by (auto simp: propagate_load)
  qed
  moreover have "loads_ok (drain s)"
    unfolding loads_ok_def
  proof (intro allI impI)
    fix i c' sub'
    assume i: "i < length (promises (drain s))"
      and at: "promises (drain s) ! i = (LoadGroups c' sub', Pending)"
    from i have i': "i < length (promises s)" by simp
    have "fst (promises s ! i) = LoadGroups c' sub'"
      using at fst_propagate_nth [OF i'] by simp
    moreover have "snd (promises s ! i) = Pending"
      using at propagate_Pending [OF i'] by simp
    ultimately have "promises s ! i = (LoadGroups c' sub', Pending)"
      by (simp add: prod_eq_iff)
    from loads_okD [OF l i' this] show "updates (drain s) (sub_id sub') = Some i" by simp
  qed
  moreover have "current_ok (drain s)"
    unfolding current_ok_def
  proof (intro allI impI)
    fix k p
    assume "current (drain s) k = Some p"
    then have "current s k = Some p" by simp
    from current_okD [OF c this]
    show "p < length (promises (drain s)) \<and> (\<exists>g. snd (promises (drain s) ! p) = Fulfilled g)"
      by (auto simp: propagate_settled settled_def)
  qed
  moreover have "handlers_ok (drain s)"
    using h by (simp add: handlers_ok_def)
  moreover have "timers_ok (drain s)"
    using t by (auto simp: timers_ok_def fst_propagate_nth)
  moreover have "own_keys_ok (drain s)"
    using o by (simp add: own_keys_ok_def)
  ultimately show ?thesis by (simp add: cache_inv_def)
qed

text \<open>Appending the promise an \<open>async\<close> method returns.\<close>

lemma new_promise_AsyncP_inv:
  assumes "cache_inv s"
  shows "cache_inv (snd (new_promise AsyncP st s))"
proof -
  have u: "updates_ok s" and l: "loads_ok s" and c: "current_ok s"
    and h: "handlers_ok s" and t: "timers_ok s" and o: "own_keys_ok s"
    using assms by (simp_all add: cache_inv_def)
  have ps: "promises (snd (new_promise AsyncP st s)) = promises s @ [(AsyncP, st)]"
    and [simp]: "updates (snd (new_promise AsyncP st s)) = updates s"
    "current (snd (new_promise AsyncP st s)) = current s"
    "handlers (snd (new_promise AsyncP st s)) = handlers s"
    "timers (snd (new_promise AsyncP st s)) = timers s"
    by (simp_all add: new_promise_def)
  have "updates_ok (snd (new_promise AsyncP st s))"
    unfolding updates_ok_def
  proof (intro allI impI)
    fix k p
    assume "updates (snd (new_promise AsyncP st s)) k = Some p"
    then have "updates s k = Some p" by simp
    from updates_okD [OF u this]
    show "p < length (promises (snd (new_promise AsyncP st s))) \<and>
          snd (promises (snd (new_promise AsyncP st s)) ! p) = Pending \<and>
          (\<exists>c sub. fst (promises (snd (new_promise AsyncP st s)) ! p) = LoadGroups c sub \<and>
             sub_id sub = k) \<and>
          (p, k) \<in> set (handlers (snd (new_promise AsyncP st s)))"
      by (auto simp: ps nth_append)
  qed
  moreover have "loads_ok (snd (new_promise AsyncP st s))"
    unfolding loads_ok_def
  proof (intro allI impI)
    fix i c' sub'
    assume i: "i < length (promises (snd (new_promise AsyncP st s)))"
      and at: "promises (snd (new_promise AsyncP st s)) ! i = (LoadGroups c' sub', Pending)"
    have i': "i < length (promises s)"
      using i at by (cases "i = length (promises s)") (auto simp: ps nth_append)
    then have "promises s ! i = (LoadGroups c' sub', Pending)"
      using at by (simp add: ps nth_append)
    from loads_okD [OF l i' this]
    show "updates (snd (new_promise AsyncP st s)) (sub_id sub') = Some i" by simp
  qed
  moreover have "current_ok (snd (new_promise AsyncP st s))"
    unfolding current_ok_def
  proof (intro allI impI)
    fix k p
    assume "current (snd (new_promise AsyncP st s)) k = Some p"
    then have "current s k = Some p" by simp
    from current_okD [OF c this]
    show "p < length (promises (snd (new_promise AsyncP st s))) \<and>
          (\<exists>g. snd (promises (snd (new_promise AsyncP st s)) ! p) = Fulfilled g)"
      by (auto simp: ps nth_append)
  qed
  moreover have "handlers_ok (snd (new_promise AsyncP st s))"
    using h by (simp add: handlers_ok_def)
  moreover have "timers_ok (snd (new_promise AsyncP st s))"
    unfolding timers_ok_def
  proof (intro allI impI)
    fix dl tp v
    assume "(dl, tp, v) \<in> set (timers (snd (new_promise AsyncP st s)))"
    then have "(dl, tp, v) \<in> set (timers s)" by simp
    from timers_okD [OF t this]
    show "tp < length (promises (snd (new_promise AsyncP st s))) \<and>
          (\<exists>x. fst (promises (snd (new_promise AsyncP st s)) ! tp) = TimerP x)"
      by (auto simp: ps nth_append)
  qed
  moreover have "own_keys_ok (snd (new_promise AsyncP st s))"
    using o by (simp add: own_keys_ok_def)
  ultimately show ?thesis by (simp add: cache_inv_def)
qed

lemma cache_inv_cong:
  "updates s' = updates s \<Longrightarrow> current s' = current s \<Longrightarrow> promises s' = promises s \<Longrightarrow>
   handlers s' = handlers s \<Longrightarrow> timers s' = timers s \<Longrightarrow> cache_inv s' = cache_inv s"
  by (simp add: cache_inv_def updates_ok_def loads_ok_def current_ok_def handlers_ok_def
        timers_ok_def own_keys_ok_def)

lemma lookupCredentials_inv: "cache_inv (snd (lookupCredentials tn s)) = cache_inv s"
  by (rule cache_inv_cong) (simp_all add: lookupCredentials_def)

lemma fetchGroups_inv:
  assumes "cache_inv s"
  shows "cache_inv (snd (fetchGroups s))"
proof (cases "defaultSubscription s")
  case None
  then show ?thesis
    using new_promise_AsyncP_inv [OF assms] by (simp add: fetchGroups_def)
next
  case (Some sub)
  let ?s1 = "snd (lookupCredentials (tenantId sub) s)"
  have s1: "cache_inv ?s1" using assms by (simp add: lookupCredentials_inv)
  show ?thesis
  proof (cases "fst (lookupCredentials (tenantId sub) s)")
    case None
    then show ?thesis
      using Some new_promise_AsyncP_inv [OF s1]
      by (simp add: fetchGroups_def split_beta)
  next
    case (Some creds)
    then show ?thesis
      using \<open>defaultSubscription s = Some sub\<close>
        new_promise_AsyncP_inv [OF updateGroups_inv [OF s1]]
      by (simp add: fetchGroups_def split_beta)
  qed
qed

lemma onSubscriptionUpdated_inv:
  assumes "cache_inv s"
  shows "cache_inv (onSubscriptionUpdated s)"
proof -
  have d: "cache_inv (s\<lparr>defaultSubscription := x\<rparr>)" for x
    using assms cache_inv_cong [of "s\<lparr>defaultSubscription := x\<rparr>" s] by simp
  have l: "cache_inv (snd (lookupCredentials tn (s\<lparr>defaultSubscription := x\<rparr>)))" for tn x
    using d by (simp add: lookupCredentials_inv)
  show ?thesis
    using assms d l updateGroups_inv [OF l]
    by (auto simp: onSubscriptionUpdated_def Let_def split_beta split: option.splits)
qed

lemma run_handler_fields [simp]:
  "promises (run_handler p oc k s) = promises s"
  "handlers (run_handler p oc k s) = handlers s"
  "timers (run_handler p oc k s) = timers s"
  "now (run_handler p oc k s) = now s"
  "lookups (run_handler p oc k s) = lookups s"
  "defaultSubscription (run_handler p oc k s) = defaultSubscription s"
  "subscriptions (run_handler p oc k s) = subscriptions s"
  "logins (run_handler p oc k s) = logins s"
  "updates (run_handler p oc k s) = (updates s)(k := None)"
  by (simp_all add: run_handler_def Let_def split: outcome.splits)

lemma run_handler_current [simp]:
  "current (run_handler p (Succeeds g) k s) = (current s)(k \<mapsto> p)"
  "current (run_handler p (Fails e) k s) = current s"
  by (simp_all add: run_handler_def Let_def)

lemma run_handlers_fields [simp]:
  "promises (run_handlers p oc hs s) = promises s"
  "handlers (run_handlers p oc hs s) = handlers s"
  "timers (run_handlers p oc hs s) = timers s"
  "now (run_handlers p oc hs s) = now s"
  "lookups (run_handlers p oc hs s) = lookups s"
  "defaultSubscription (run_handlers p oc hs s) = defaultSubscription s"
  "subscriptions (run_handlers p oc hs s) = subscriptions s"
  "logins (run_handlers p oc hs s) = logins s"
  by (induction p oc hs s rule: run_handlers.induct; simp)+

lemma run_handlers_updates:
  "updates (run_handlers p oc hs s) k = (if (p, k) \<in> set hs then None else updates s k)"
  by (induction p oc hs s rule: run_handlers.induct) auto

lemma run_handlers_current_Succeeds:
  "current (run_handlers p (Succeeds g) hs s) k =
     (if (p, k) \<in> set hs then Some p else current s k)"
  by (induction p "Succeeds g" hs s rule: run_handlers.induct) auto

lemma run_handlers_current_Fails:
  "current (run_handlers p (Fails e) hs s) = current s"
  by (induction p "Fails e" hs s rule: run_handlers.induct) auto

lemma run_handlers_console_Succeeds:
  "console (run_handlers p (Succeeds g) hs s) = console s"
  by (induction p "Succeeds g" hs s rule: run_handlers.induct)
     (auto simp: run_handler_def Let_def)

text \<open>
  The reactions registered on a pending \<open>loadGroups\<close> call are exactly the completion
  handling for its own subscription id.
\<close>

lemma handlers_of_load:
  assumes "cache_inv s" "p < length (promises s)" "promises s ! p = (LoadGroups c sub, Pending)"
  shows "(p, k) \<in> set (handlers s) \<longleftrightarrow> k = sub_id sub"
proof
  assume "(p, k) \<in> set (handlers s)"
  then have "updates s k = Some p"
    using assms(1) by (simp add: cache_inv_def handlers_okD)
  then have "\<exists>c' sub'. fst (promises s ! p) = LoadGroups c' sub' \<and> sub_id sub' = k"
    using assms(1) updates_okD [of s k p] by (simp add: cache_inv_def)
  then show "k = sub_id sub" using assms(3) by auto
next
  assume k: "k = sub_id sub"
  have "updates s (sub_id sub) = Some p"
    using assms loads_okD [of s p c sub] by (simp add: cache_inv_def)
  then show "(p, k) \<in> set (handlers s)"
    using assms(1) updates_okD [of s k p] k by (simp add: cache_inv_def)
qed

lemma settle_listing_fields [simp]:
  "timers (settle_listing p oc s) = timers s"
  "now (settle_listing p oc s) = now s"
  "lookups (settle_listing p oc s) = lookups s"
  "defaultSubscription (settle_listing p oc s) = defaultSubscription s"
  "subscriptions (settle_listing p oc s) = subscriptions s"
  "logins (settle_listing p oc s) = logins s"
  by (simp_all add: settle_listing_def Let_def)

lemma settle_listing_promises:
  "p < length (promises s) \<Longrightarrow> promises s ! p = (LoadGroups c sub, Pending) \<Longrightarrow>
   promises (settle_listing p oc s) =
     propagate ((promises s)[p := (LoadGroups c sub, settled_as oc)])"
  by (simp add: settle_listing_def Let_def)

lemma settle_listing_handlers:
  "p < length (promises s) \<Longrightarrow> promises s ! p = (LoadGroups c sub, Pending) \<Longrightarrow>
   handlers (settle_listing p oc s) = filter (\<lambda>(q, k). q \<noteq> p) (handlers s)"
  by (simp add: settle_listing_def Let_def)

lemma settle_listing_updates:
  assumes "cache_inv s" "p < length (promises s)" "promises s ! p = (LoadGroups c sub, Pending)"
  shows "updates (settle_listing p oc s) = (updates s)(sub_id sub := None)"
proof
  fix k
  show "updates (settle_listing p oc s) k = ((updates s)(sub_id sub := None)) k"
    using assms(2,3) handlers_of_load [OF assms, of k]
    by (simp add: settle_listing_def Let_def run_handlers_updates)
qed

lemma settle_listing_current_Succeeds:
  assumes "cache_inv s" "p < length (promises s)" "promises s ! p = (LoadGroups c sub, Pending)"
  shows "current (settle_listing p (Succeeds g) s) = (current s)(sub_id sub \<mapsto> p)"
proof
  fix k
  show "current (settle_listing p (Succeeds g) s) k = ((current s)(sub_id sub \<mapsto> p)) k"
    using assms(2,3) handlers_of_load [OF assms, of k]
    by (simp add: settle_listing_def Let_def run_handlers_current_Succeeds)
qed

lemma settle_listing_current_Fails:
  "current (settle_listing p (Fails e) s) = current s"
  by (simp add: settle_listing_def Let_def run_handlers_current_Fails)

lemma settle_listing_idle:
  "\<not> (p < length (promises s) \<and> is_load (fst (promises s ! p)) \<and> snd (promises s ! p) = Pending)
   \<Longrightarrow> settle_listing p oc s = s"
  by (auto simp: settle_listing_def)

lemma is_load_iff: "is_load k \<longleftrightarrow> (\<exists>c sub. k = LoadGroups c sub)"
  by (cases k) auto

lemma settle_listing_inv:
  assumes inv: "cache_inv s"
  shows "cache_inv (settle_listing p oc s)"
proof (cases "p < length (promises s) \<and> is_load (fst (promises s ! p)) \<and>
              snd (promises s ! p) = Pending")
  case False
  then show ?thesis using inv by (simp add: settle_listing_idle)
next
  case True
  then obtain c sub where p: "p < length (promises s)"
    and at: "promises s ! p = (LoadGroups c sub, Pending)"
    by (auto simp: is_load_iff prod_eq_iff)
  have u: "updates_ok s" and l: "loads_ok s" and cu: "current_ok s"
    and h: "handlers_ok s" and t: "timers_ok s" and o: "own_keys_ok s"
    using inv by (simp_all add: cache_inv_def)
  let ?ps = "(promises s)[p := (LoadGroups c sub, settled_as oc)]"
  let ?s3 = "run_handlers p oc (handlers s)
               (s\<lparr>promises := ?ps, handlers := filter (\<lambda>(q, k). q \<noteq> p) (handlers s)\<rparr>)"
  have eq: "settle_listing p oc s = drain ?s3"
    using p at by (simp add: settle_listing_def Let_def)
  have upd: "updates ?s3 = (updates s)(sub_id sub := None)"
  proof
    fix k
    show "updates ?s3 k = ((updates s)(sub_id sub := None)) k"
      using handlers_of_load [OF inv p at, of k] by (simp add: run_handlers_updates)
  qed
  have cur: "current ?s3 k = Some q \<Longrightarrow>
             (current s k = Some q) \<or> (q = p \<and> (\<exists>g. oc = Succeeds g))" for k q
    using handlers_of_load [OF inv p at, of k]
    by (cases oc)
       (auto simp: run_handlers_current_Succeeds run_handlers_current_Fails split: if_splits)
  have pk: "updates s (sub_id sub) = Some p"
    using loads_okD [OF l p at] .
  have "updates_ok ?s3"
    unfolding updates_ok_def
  proof (intro allI impI)
    fix k q
    assume "updates ?s3 k = Some q"
    then have k: "k \<noteq> sub_id sub" and old: "updates s k = Some q"
      by (auto simp: upd split: if_splits)
    from updates_okD [OF u old] at k have "q \<noteq> p" by auto
    with updates_okD [OF u old]
    show "q < length (promises ?s3) \<and> snd (promises ?s3 ! q) = Pending \<and>
          (\<exists>c' sub'. fst (promises ?s3 ! q) = LoadGroups c' sub' \<and> sub_id sub' = k) \<and>
          (q, k) \<in> set (handlers ?s3)"
      by auto
  qed
  moreover have "loads_ok ?s3"
    unfolding loads_ok_def
  proof (intro allI impI)
    fix i c' sub'
    assume i: "i < length (promises ?s3)"
      and ati: "promises ?s3 ! i = (LoadGroups c' sub', Pending)"
    have ip: "i \<noteq> p" using ati p by (cases oc) auto
    then have "promises s ! i = (LoadGroups c' sub', Pending)" using ati by simp
    moreover have i': "i < length (promises s)" using i by simp
    ultimately have old: "updates s (sub_id sub') = Some i" using loads_okD [OF l] by blast
    with pk ip have "sub_id sub' \<noteq> sub_id sub" by auto
    with old show "updates ?s3 (sub_id sub') = Some i" by (simp add: upd)
  qed
  moreover have "current_ok ?s3"
    unfolding current_ok_def
  proof (intro allI impI)
    fix k q
    assume "current ?s3 k = Some q"
    from cur [OF this]
    show "q < length (promises ?s3) \<and> (\<exists>g. snd (promises ?s3 ! q) = Fulfilled g)"
    proof
      assume old: "current s k = Some q"
      from current_okD [OF cu old] at have "q \<noteq> p" by auto
      with current_okD [OF cu old] show ?thesis by auto
    next
      assume "q = p \<and> (\<exists>g. oc = Succeeds g)"
      then show ?thesis using p by auto
    qed
  qed
  moreover have "handlers_ok ?s3"
    unfolding handlers_ok_def
  proof (intro allI impI)
    fix q k
    assume "(q, k) \<in> set (handlers ?s3)"
    then have qp: "q \<noteq> p" and old: "(q, k) \<in> set (handlers s)" by auto
    from handlers_okD [OF h old] have uq: "updates s k = Some q" .
    with pk qp have "k \<noteq> sub_id sub" by auto
    with uq show "updates ?s3 k = Some q" by (simp add: upd)
  qed
  moreover have "timers_ok ?s3"
    unfolding timers_ok_def
  proof (intro allI impI)
    fix dl tp v
    assume "(dl, tp, v) \<in> set (timers ?s3)"
    then have "(dl, tp, v) \<in> set (timers s)" by simp
    from timers_okD [OF t this] at
    show "tp < length (promises ?s3) \<and> (\<exists>x. fst (promises ?s3 ! tp) = TimerP x)"
      by (cases "tp = p") auto
  qed
  moreover have "own_keys_ok ?s3"
    unfolding own_keys_ok_def
  proof
    fix k
    assume kp: "k \<in> set object_prototype"
    from own_keys_okD [OF o kp] have n: "updates s k = None" "current s k = None"
      by simp_all
    with pk have "k \<noteq> sub_id sub" by auto
    then have "(p, k) \<notin> set (handlers s)"
      using handlers_of_load [OF inv p at, of k] by simp
    then show "updates ?s3 k = None \<and> current ?s3 k = None"
      using n
      by (cases oc)
         (simp_all add: run_handlers_updates run_handlers_current_Succeeds
            run_handlers_current_Fails)
  qed
  ultimately have "cache_inv ?s3" by (simp add: cache_inv_def)
  then show ?thesis unfolding eq by (rule drain_inv)
qed

lemma resolve_with_fields [simp]:
  "current (resolve_with t v s) = current s"
  "updates (resolve_with t v s) = updates s"
  "defaultSubscription (resolve_with t v s) = defaultSubscription s"
  "handlers (resolve_with t v s) = handlers s"
  "timers (resolve_with t v s) = timers s"
  "now (resolve_with t v s) = now s"
  "console (resolve_with t v s) = console s"
  "lookups (resolve_with t v s) = lookups s"
  "subscriptions (resolve_with t v s) = subscriptions s"
  "logins (resolve_with t v s) = logins s"
  "length (promises (resolve_with t v s)) = length (promises s)"
  by (simp_all add: resolve_with_def)

lemma resolve_with_kind:
  "fst (promises (resolve_with t v s) ! i) = fst (promises s ! i)"
  by (cases "i = t") (simp_all add: resolve_with_def)

lemma resolve_with_other:
  "i \<noteq> t \<Longrightarrow> promises (resolve_with t v s) ! i = promises s ! i"
  by (simp add: resolve_with_def)

lemma resolve_with_not_Pending:
  "snd (promises s ! i) \<noteq> Pending \<Longrightarrow> promises (resolve_with t v s) ! i = promises s ! i"
  by (cases "i = t") (simp_all add: resolve_with_def)

lemma resolve_with_Pending:
  "i < length (promises s) \<Longrightarrow> snd (promises (resolve_with t v s) ! i) = Pending \<Longrightarrow>
   promises (resolve_with t v s) ! i = promises s ! i"
  by (cases "i = t") (auto simp: resolve_with_def split: if_splits jsval.splits)

lemma resolve_with_inv:
  assumes inv: "cache_inv s"
    and nl: "\<not> is_load (fst (promises s ! t))"
  shows "cache_inv (resolve_with t v s)"
proof -
  have u: "updates_ok s" and l: "loads_ok s" and cu: "current_ok s"
    and h: "handlers_ok s" and tm: "timers_ok s" and o: "own_keys_ok s"
    using inv by (simp_all add: cache_inv_def)
  let ?s = "resolve_with t v s"
  have "updates_ok ?s"
    unfolding updates_ok_def
  proof (intro allI impI)
    fix k q
    assume "updates ?s k = Some q"
    then have old: "updates s k = Some q" by simp
    from updates_okD [OF u old] nl have "q \<noteq> t" by auto
    with updates_okD [OF u old]
    show "q < length (promises ?s) \<and> snd (promises ?s ! q) = Pending \<and>
          (\<exists>c' sub'. fst (promises ?s ! q) = LoadGroups c' sub' \<and> sub_id sub' = k) \<and>
          (q, k) \<in> set (handlers ?s)"
      by (simp add: resolve_with_other)
  qed
  moreover have "loads_ok ?s"
    unfolding loads_ok_def
  proof (intro allI impI)
    fix i c' sub'
    assume i: "i < length (promises ?s)"
      and ati: "promises ?s ! i = (LoadGroups c' sub', Pending)"
    have i': "i < length (promises s)" using i by simp
    have "promises s ! i = (LoadGroups c' sub', Pending)"
      using resolve_with_Pending [OF i', of t v] ati by simp
    from loads_okD [OF l i' this] show "updates ?s (sub_id sub') = Some i" by simp
  qed
  moreover have "current_ok ?s"
    unfolding current_ok_def
  proof (intro allI impI)
    fix k q
    assume "current ?s k = Some q"
    then have old: "current s k = Some q" by simp
    from current_okD [OF cu old]
    show "q < length (promises ?s) \<and> (\<exists>g. snd (promises ?s ! q) = Fulfilled g)"
      by (auto simp: resolve_with_not_Pending)
  qed
  moreover have "handlers_ok ?s"
    using h by (simp add: handlers_ok_def)
  moreover have "timers_ok ?s"
    using tm by (simp add: timers_ok_def resolve_with_kind)
  moreover have "own_keys_ok ?s"
    using o by (simp add: own_keys_ok_def)
  ultimately show ?thesis by (simp add: cache_inv_def)
qed

lemma fire_fields [simp]:
  "current (fire due s) = current s"
  "updates (fire due s) = updates s"
  "defaultSubscription (fire due s) = defaultSubscription s"
  "handlers (fire due s) = handlers s"
  "timers (fire due s) = timers s"
  "now (fire due s) = now s"
  "console (fire due s) = console s"
  "lookups (fire due s) = lookups s"
  "subscriptions (fire due s) = subscriptions s"
  "logins (fire due s) = logins s"
  "length (promises (fire due s)) = length (promises s)"
  by (induction due s rule: fire.induct; simp)+

lemma fire_kind:
  "i < length (promises s) \<Longrightarrow> fst (promises (fire due s) ! i) = fst (promises s ! i)"
  by (induction due s rule: fire.induct) (simp_all add: fst_propagate_nth resolve_with_kind)

lemma fire_inv:
  assumes "cache_inv s"
    and "\<forall>e \<in> set due. fst (snd e) < length (promises s) \<and>
           \<not> is_load (fst (promises s ! fst (snd e)))"
  shows "cache_inv (fire due s)"
  using assms
proof (induction due s rule: fire.induct)
  case (1 s)
  then show ?case by simp
next
  case (2 dl t v due s)
  let ?s = "drain (resolve_with t v s)"
  have "cache_inv ?s"
    using 2 by (simp add: drain_inv resolve_with_inv)
  moreover have "\<forall>e \<in> set due. fst (snd e) < length (promises ?s) \<and>
                   \<not> is_load (fst (promises ?s ! fst (snd e)))"
    using "2.prems"(2) by (simp add: fst_propagate_nth resolve_with_kind)
  ultimately show ?case using "2.IH" by simp
qed

lemma elapse_fields [simp]:
  "current (elapse d s) = current s"
  "updates (elapse d s) = updates s"
  "defaultSubscription (elapse d s) = defaultSubscription s"
  "handlers (elapse d s) = handlers s"
  "timers (elapse d s) = filter (\<lambda>(dl, t, v). \<not> dl \<le> now s + d) (timers s)"
  "now (elapse d s) = now s + d"
  "console (elapse d s) = console s"
  "lookups (elapse d s) = lookups s"
  "subscriptions (elapse d s) = subscriptions s"
  "logins (elapse d s) = logins s"
  "length (promises (elapse d s)) = length (promises s)"
  by (simp_all add: elapse_def Let_def)

lemma cache_inv_fewer_timers:
  assumes "cache_inv s" "set ts \<subseteq> set (timers s)"
  shows "cache_inv (s\<lparr>now := n, timers := ts\<rparr>)"
proof -
  have "timers_ok (s\<lparr>now := n, timers := ts\<rparr>)"
    unfolding timers_ok_def
  proof (intro allI impI)
    fix dl t v
    assume "(dl, t, v) \<in> set (timers (s\<lparr>now := n, timers := ts\<rparr>))"
    then have "(dl, t, v) \<in> set (timers s)" using assms(2) by auto
    from timers_okD [OF _ this] assms(1)
    show "t < length (promises (s\<lparr>now := n, timers := ts\<rparr>)) \<and>
          (\<exists>x. fst (promises (s\<lparr>now := n, timers := ts\<rparr>) ! t) = TimerP x)"
      by (simp add: cache_inv_def)
  qed
  moreover have "updates_ok (s\<lparr>now := n, timers := ts\<rparr>) = updates_ok s"
    by (simp add: updates_ok_def)
  moreover have "loads_ok (s\<lparr>now := n, timers := ts\<rparr>) = loads_ok s"
    by (simp add: loads_ok_def)
  moreover have "current_ok (s\<lparr>now := n, timers := ts\<rparr>) = current_ok s"
    by (simp add: current_ok_def)
  moreover have "handlers_ok (s\<lparr>now := n, timers := ts\<rparr>) = handlers_ok s"
    by (simp add: handlers_ok_def)
  moreover have "own_keys_ok (s\<lparr>now := n, timers := ts\<rparr>) = own_keys_ok s"
    by (simp add: own_keys_ok_def)
  ultimately show ?thesis using assms(1) by (simp add: cache_inv_def)
qed

lemma elapse_eq:
  "elapse d s =
     fire (filter (\<lambda>(dl, t, v). dl \<le> now s + d) (timers s))
       (s\<lparr>now := now s + d, timers := filter (\<lambda>(dl, t, v). \<not> dl \<le> now s + d) (timers s)\<rparr>)"
  by (simp add: elapse_def Let_def)

lemma elapse_inv:
  assumes "cache_inv s"
  shows "cache_inv (elapse d s)"
  unfolding elapse_eq
proof (rule fire_inv)
  show "cache_inv (s\<lparr>now := now s + d,
          timers := filter (\<lambda>(dl, t, v). \<not> dl \<le> now s + d) (timers s)\<rparr>)"
    by (rule cache_inv_fewer_timers [OF assms]) auto
next
  have t: "timers_ok s" using assms by (simp add: cache_inv_def)
  show "\<forall>e \<in> set (filter (\<lambda>(dl, t, v). dl \<le> now s + d) (timers s)).
          fst (snd e) < length (promises (s\<lparr>now := now s + d,
            timers := filter (\<lambda>(dl, t, v). \<not> dl \<le> now s + d) (timers s)\<rparr>)) \<and>
          \<not> is_load (fst (promises (s\<lparr>now := now s + d,
            timers := filter (\<lambda>(dl, t, v). \<not> dl \<le> now s + d) (timers s)\<rparr>) ! fst (snd e)))"
  proof
    fix e
    assume "e \<in> set (filter (\<lambda>(dl, t, v). dl \<le> now s + d) (timers s))"
    then have "(fst e, fst (snd e), snd (snd e)) \<in> set (timers s)" by simp
    from timers_okD [OF t this]
    show "fst (snd e) < length (promises (s\<lparr>now := now s + d,
            timers := filter (\<lambda>(dl, t, v). \<not> dl \<le> now s + d) (timers s)\<rparr>)) \<and>
          \<not> is_load (fst (promises (s\<lparr>now := now s + d,
            timers := filter (\<lambda>(dl, t, v). \<not> dl \<le> now s + d) (timers s)\<rparr>) ! fst (snd e)))"
      by auto
  qed
qed

lemma construct_inv: "cache_inv (construct lg subs)"
proof -
  have "cache_inv \<lparr>current = Map.empty, updates = Map.empty, defaultSubscription = None,
        promises = [], handlers = [], timers = [], now = 0, console = [], lookups = [],
        subscriptions = subs, logins = lg\<rparr>"
    by (simp add: cache_inv_def updates_ok_def loads_ok_def current_ok_def handlers_ok_def
          timers_ok_def own_keys_ok_def)
  then show ?thesis unfolding construct_def by (rule onSubscriptionUpdated_inv)
qed

lemma step_inv: "cache_inv s \<Longrightarrow> cache_inv (step e s)"
proof (cases e)
  case Fetch
  assume "cache_inv s"
  then show ?thesis using Fetch by (simp add: drain_inv fetchGroups_inv)
next
  case (SubscriptionsUpdated subs)
  assume "cache_inv s"
  then have "cache_inv (s\<lparr>subscriptions := subs\<rparr>)"
    using cache_inv_cong [of "s\<lparr>subscriptions := subs\<rparr>" s] by simp
  then show ?thesis
    using SubscriptionsUpdated by (simp add: drain_inv onSubscriptionUpdated_inv)
next
  case (LoginsChanged lg)
  assume "cache_inv s"
  then show ?thesis
    using LoginsChanged cache_inv_cong [of "s\<lparr>logins := lg\<rparr>" s] by simp
next
  case (ListingSettles p oc)
  assume "cache_inv s"
  then show ?thesis using ListingSettles by (simp add: settle_listing_inv)
next
  case (Elapse d)
  assume "cache_inv s"
  then show ?thesis using Elapse by (simp add: elapse_inv)
qed

lemma run_inv: "cache_inv s \<Longrightarrow> cache_inv (run es s)"
  unfolding run_def by (induction es arbitrary: s) (simp_all add: step_inv)

lemma reachable_inv: "reachable s \<Longrightarrow> cache_inv s"
  by (induction rule: reachable.induct) (simp_all add: drain_inv construct_inv step_inv)

section \<open>The subscription tracker\<close>

lemma new_promise_fields [simp]:
  "current (snd (new_promise k st s)) = current s"
  "updates (snd (new_promise k st s)) = updates s"
  "defaultSubscription (snd (new_promise k st s)) = defaultSubscription s"
  "handlers (snd (new_promise k st s)) = handlers s"
  "timers (snd (new_promise k st s)) = timers s"
  "now (snd (new_promise k st s)) = now s"
  "console (snd (new_promise k st s)) = console s"
  "lookups (snd (new_promise k st s)) = lookups s"
  "subscriptions (snd (new_promise k st s)) = subscriptions s"
  "logins (snd (new_promise k st s)) = logins s"
  "promises (snd (new_promise k st s)) = promises s @ [(k, st)]"
  "fst (new_promise k st s) = length (promises s)"
  by (simp_all add: new_promise_def)

lemma fetchGroups_defaultSubscription [simp]:
  "defaultSubscription (snd (fetchGroups s)) = defaultSubscription s"
  by (simp add: fetchGroups_def lookupCredentials_def split_beta split: option.splits)


lemma onSubscriptionUpdated_same:
  "map_option sub_id (defaultSubscription s) = map_option sub_id (find isDefault (subscriptions s))
   \<Longrightarrow> onSubscriptionUpdated s = s"
  by (simp add: onSubscriptionUpdated_def)





section \<open>How the promises of one call settle\<close>

lemma pstate_of_take_propagate:
  "q < i \<Longrightarrow> i < length ps \<Longrightarrow> pstate_of (take i (propagate ps)) q = snd (propagate ps ! q)"
  by (simp add: pstate_of_def)

lemma propagate_unsettled_load:
  "i < length ps \<Longrightarrow> is_load (fst (ps ! i)) \<Longrightarrow> snd (ps ! i) = Pending \<Longrightarrow>
   snd (propagate ps ! i) = Pending"
  by (simp add: propagate_load)

lemma race_store_propagate:
  assumes "race_store u cur g0 t c r a ps"
  shows "race_store u cur g0 t c r a (propagate ps)"
proof -
  let ?P = "propagate ps"
  from assms have lens: "a < length ps" "u < t" "cur < t" "t < c" "c < r" "r < a"
    and u: "is_load (fst (ps ! u))" "snd (ps ! u) = Pending"
    and cur: "snd (ps ! cur) = Fulfilled g0"
    and t: "ps ! t = (TimerP (Own cur), Pending)"
    and c: "ps ! c = (CatchP u (Own cur), Pending)"
    and r: "ps ! r = (RaceP t c, Pending)"
    and a: "ps ! a = (AsyncP, Follows r)"
    by (simp_all add: race_store_def)
  have Pu: "?P ! u = ps ! u" using lens u by (simp add: propagate_load)
  have Pcur: "?P ! cur = ps ! cur" using lens cur by (simp add: propagate_settled settled_def)
  have Pt: "?P ! t = (TimerP (Own cur), Pending)" using lens t by (simp add: propagate_nth)
  have Pc: "?P ! c = (CatchP u (Own cur), Pending)"
    using lens c Pu u by (simp add: propagate_nth react_def pstate_of_take_propagate)
  have Pr: "?P ! r = (RaceP t c, Pending)"
    using lens r Pt Pc by (simp add: propagate_nth react_def pstate_of_take_propagate)
  have Pa: "?P ! a = (AsyncP, Follows r)"
    using lens a Pr by (simp add: propagate_nth react_def adopt_def pstate_of_take_propagate)
  show ?thesis
    using lens u cur Pu Pcur Pt Pc Pr Pa by (simp add: race_store_def)
qed

lemma race_store_append:
  "race_store u cur g0 t c r a ps \<Longrightarrow> race_store u cur g0 t c r a (ps @ xs)"
  by (simp add: race_store_def nth_append)

lemma race_store_update:
  "race_store u cur g0 t c r a ps \<Longrightarrow> i \<notin> {u, cur, t, c, r, a} \<Longrightarrow>
   race_store u cur g0 t c r a (ps[i := x])"
  by (simp add: race_store_def)

lemma race_store_timer:
  assumes "race_store u cur g0 t c r a ps"
  shows "propagate (ps[t := (TimerP (Own cur), Follows cur)]) ! a = (AsyncP, Fulfilled g0)"
proof -
  let ?ps = "ps[t := (TimerP (Own cur), Follows cur)]"
  let ?P = "propagate ?ps"
  from assms have lens: "a < length ps" "u < t" "cur < t" "t < c" "c < r" "r < a"
    and u: "is_load (fst (ps ! u))" "snd (ps ! u) = Pending"
    and cur: "snd (ps ! cur) = Fulfilled g0"
    and c: "ps ! c = (CatchP u (Own cur), Pending)"
    and r: "ps ! r = (RaceP t c, Pending)"
    and a: "ps ! a = (AsyncP, Follows r)"
    by (simp_all add: race_store_def)
  have Pcur: "snd (?P ! cur) = Fulfilled g0"
    using lens cur by (simp add: propagate_settled settled_def)
  have Pt: "snd (?P ! t) = Fulfilled g0"
    using lens Pcur by (simp add: propagate_nth react_def adopt_def pstate_of_take_propagate)
  have Pr: "snd (?P ! r) = Fulfilled g0"
    using lens r Pt by (simp add: propagate_nth react_def pstate_of_take_propagate)
  show ?thesis
    using lens a Pr by (simp add: propagate_nth react_def adopt_def pstate_of_take_propagate)
qed

lemma race_store_load:
  assumes "race_store u cur g0 t c r a ps"
  shows "propagate (ps[u := (k, settled_as oc)]) ! a =
           (AsyncP, Fulfilled (case oc of Succeeds g \<Rightarrow> g | Fails e \<Rightarrow> g0))"
proof -
  let ?ps = "ps[u := (k, settled_as oc)]"
  let ?P = "propagate ?ps"
  let ?g = "case oc of Succeeds g \<Rightarrow> g | Fails e \<Rightarrow> g0"
  from assms have lens: "a < length ps" "u < t" "cur < t" "t < c" "c < r" "r < a"
    and uc: "u \<noteq> cur"
    and cur: "snd (ps ! cur) = Fulfilled g0"
    and t: "ps ! t = (TimerP (Own cur), Pending)"
    and c: "ps ! c = (CatchP u (Own cur), Pending)"
    and r: "ps ! r = (RaceP t c, Pending)"
    and a: "ps ! a = (AsyncP, Follows r)"
    by (auto simp: race_store_def)
  have Pcur: "snd (?P ! cur) = Fulfilled g0"
    using lens cur uc by (simp add: propagate_settled settled_def)
  have Pu: "snd (?P ! u) = settled_as oc"
    using lens by (cases oc) (simp_all add: propagate_settled settled_def)
  have Pt: "snd (?P ! t) = Pending"
    using lens t by (simp add: propagate_nth)
  have Pc: "snd (?P ! c) = Fulfilled ?g"
    using lens c Pu Pcur
    by (cases oc) (simp_all add: propagate_nth react_def adopt_def pstate_of_take_propagate)
  have Pr: "snd (?P ! r) = Fulfilled ?g"
    using lens r Pt Pc by (simp add: propagate_nth react_def pstate_of_take_propagate)
  show ?thesis
    using lens a Pr by (simp add: propagate_nth react_def adopt_def pstate_of_take_propagate)
qed

lemma waiting_propagate:
  assumes "waiting u a ps"
  shows "waiting u a (propagate ps)"
proof -
  from assms have lens: "a < length ps" "u < a"
    and u: "is_load (fst (ps ! u))" "snd (ps ! u) = Pending"
    and a: "ps ! a = (AsyncP, Follows u)"
    by (simp_all add: waiting_def)
  have Pu: "propagate ps ! u = ps ! u" using lens u by (simp add: propagate_load)
  have "propagate ps ! a = (AsyncP, Follows u)"
    using lens a Pu u by (simp add: propagate_nth react_def adopt_def pstate_of_take_propagate)
  then show ?thesis using lens u Pu by (simp add: waiting_def)
qed

lemma waiting_append: "waiting u a ps \<Longrightarrow> waiting u a (ps @ xs)"
  by (simp add: waiting_def nth_append)

lemma waiting_update: "waiting u a ps \<Longrightarrow> i \<notin> {u, a} \<Longrightarrow> waiting u a (ps[i := x])"
  by (simp add: waiting_def)

lemma waiting_load:
  assumes "waiting u a ps"
  shows "propagate (ps[u := (k, settled_as oc)]) ! a = (AsyncP, settled_as oc)"
proof -
  from assms have lens: "a < length ps" "u < a" and a: "ps ! a = (AsyncP, Follows u)"
    by (simp_all add: waiting_def)
  have "snd (propagate (ps[u := (k, settled_as oc)]) ! u) = settled_as oc"
    using lens by (cases oc) (simp_all add: propagate_settled settled_def)
  then show ?thesis
    using lens a
    by (cases oc) (simp_all add: propagate_nth react_def adopt_def pstate_of_take_propagate)
qed

lemma extends_refl: "extends s s"
  by (simp add: extends_def)

lemma extends_trans:
  assumes "extends s s'" "extends s' s''"
  shows "extends s s''"
proof -
  from assms(1) obtain xs ts where 1: "promises s' = promises s @ xs"
    "timers s' = timers s @ ts" "\<forall>e \<in> set ts. length (promises s) \<le> fst (snd e)" "now s' = now s"
    by (auto simp: extends_def)
  from assms(2) obtain xs' ts' where 2: "promises s'' = promises s' @ xs'"
    "timers s'' = timers s' @ ts'" "\<forall>e \<in> set ts'. length (promises s') \<le> fst (snd e)"
    "now s'' = now s'"
    by (auto simp: extends_def)
  have "promises s'' = promises s @ (xs @ xs')" using 1 2 by simp
  moreover have "timers s'' = timers s @ (ts @ ts')" using 1 2 by simp
  moreover have "\<forall>e \<in> set (ts @ ts'). length (promises s) \<le> fst (snd e)"
    using 1 2 by fastforce
  moreover have "now s'' = now s" using 1 2 by simp
  ultimately show ?thesis unfolding extends_def by blast
qed

lemma new_promise_extends: "extends s (snd (new_promise k st s))"
  by (simp add: extends_def)

lemma lookupCredentials_extends: "extends s (snd (lookupCredentials tn s))"
  by (simp add: extends_def lookupCredentials_def)

lemma updateGroups_extends: "extends s (snd (updateGroups c sub s))"
  by (cases "property (current s) (sub_id sub)")
     (simp_all add: extends_def updateGroups_promises updateGroups_timers)

lemma fetchGroups_extends: "extends s (snd (fetchGroups s))"
proof (cases "defaultSubscription s")
  case None
  then show ?thesis by (simp add: fetchGroups_def new_promise_extends)
next
  case (Some sub)
  let ?s1 = "snd (lookupCredentials (tenantId sub) s)"
  have 1: "extends s ?s1" by (rule lookupCredentials_extends)
  show ?thesis
  proof (cases "fst (lookupCredentials (tenantId sub) s)")
    case None
    then show ?thesis
      using Some extends_trans [OF 1 new_promise_extends]
      by (simp add: fetchGroups_def split_beta)
  next
    case (Some creds)
    then show ?thesis
      using \<open>defaultSubscription s = Some sub\<close>
        extends_trans [OF extends_trans [OF 1 updateGroups_extends] new_promise_extends]
      by (simp add: fetchGroups_def split_beta)
  qed
qed

lemma onSubscriptionUpdated_extends: "extends s (onSubscriptionUpdated s)"
proof -
  have d: "extends s (s\<lparr>defaultSubscription := x\<rparr>)" for x
    by (simp add: extends_def)
  have l: "extends s (snd (lookupCredentials tn (s\<lparr>defaultSubscription := x\<rparr>)))" for tn x
    using extends_trans [OF d lookupCredentials_extends] .
  have u: "extends s (snd (updateGroups c sub
             (snd (lookupCredentials tn (s\<lparr>defaultSubscription := x\<rparr>)))))" for c sub tn x
    using extends_trans [OF l updateGroups_extends] .
  show ?thesis
    using d l u
    by (auto simp: onSubscriptionUpdated_def Let_def split_beta extends_refl split: option.splits)
qed

lemma racing_extends:
  assumes "racing u cur g0 dl t c r a s" "extends s s'"
  shows "racing u cur g0 dl t c r a s'"
proof -
  from assms(2) obtain xs ts where x: "promises s' = promises s @ xs"
    "timers s' = timers s @ ts" "\<forall>e \<in> set ts. length (promises s) \<le> fst (snd e)" "now s' = now s"
    by (auto simp: extends_def)
  from assms(1) have st: "race_store u cur g0 t c r a (promises s)"
    and tm: "(dl, t, Own cur) \<in> set (timers s)"
    and un: "\<forall>e \<in> set (timers s). fst (snd e) = t \<longrightarrow> e = (dl, t, Own cur)"
    and nw: "now s < dl"
    by (simp_all add: racing_def)
  have "t < length (promises s)" using st by (simp add: race_store_def)
  then have "\<forall>e \<in> set ts. fst (snd e) \<noteq> t" using x(3) by fastforce
  then have "\<forall>e \<in> set (timers s'). fst (snd e) = t \<longrightarrow> e = (dl, t, Own cur)"
    using un x(2) by auto
  then show ?thesis
    using st tm nw x by (simp add: racing_def race_store_append)
qed

lemma racing_drain: "racing u cur g0 dl t c r a s \<Longrightarrow> racing u cur g0 dl t c r a (drain s)"
  by (simp add: racing_def race_store_propagate)

lemma waiting_extends: "waiting u a (promises s) \<Longrightarrow> extends s s' \<Longrightarrow> waiting u a (promises s')"
  by (auto simp: extends_def waiting_append)

text \<open>The listing of another call settles.\<close>

lemma settle_listing_promises_other:
  assumes "p < length (promises s)" "is_load (fst (promises s ! p))" "snd (promises s ! p) = Pending"
  shows "promises (settle_listing p oc s) =
           propagate ((promises s)[p := (fst (promises s ! p), settled_as oc)])"
  using assms by (simp add: settle_listing_def Let_def)

lemma racing_settle_other:
  assumes "racing u cur g0 dl t c r a s" "p \<noteq> u"
  shows "racing u cur g0 dl t c r a (settle_listing p oc s)"
proof (cases "p < length (promises s) \<and> is_load (fst (promises s ! p)) \<and>
              snd (promises s ! p) = Pending")
  case False
  then show ?thesis using assms by (simp add: settle_listing_idle)
next
  case True
  from assms(1) have st: "race_store u cur g0 t c r a (promises s)" by (simp add: racing_def)
  have "p \<notin> {u, cur, t, c, r, a}"
    using True st assms(2) by (auto simp: race_store_def)
  then have "race_store u cur g0 t c r a
               (propagate ((promises s)[p := (fst (promises s ! p), settled_as oc)]))"
    using st by (intro race_store_propagate race_store_update)
  then show ?thesis
    using assms(1) True by (simp add: racing_def settle_listing_promises_other)
qed

lemma waiting_settle_other:
  assumes "waiting u a (promises s)" "p \<noteq> u"
  shows "waiting u a (promises (settle_listing p oc s))"
proof (cases "p < length (promises s) \<and> is_load (fst (promises s ! p)) \<and>
              snd (promises s ! p) = Pending")
  case False
  then show ?thesis using assms by (simp add: settle_listing_idle)
next
  case True
  have "p \<notin> {u, a}"
    using True assms by (auto simp: waiting_def)
  then have "waiting u a (propagate ((promises s)[p := (fst (promises s ! p), settled_as oc)]))"
    using assms(1) by (intro waiting_propagate waiting_update)
  then show ?thesis
    using True by (simp add: settle_listing_promises_other)
qed

text \<open>The listing of the call itself settles.\<close>

lemma racing_settle:
  assumes "racing u cur g0 dl t c r a s"
  shows "promises (settle_listing u oc s) ! a =
           (AsyncP, Fulfilled (case oc of Succeeds g \<Rightarrow> g | Fails e \<Rightarrow> g0))"
proof -
  from assms have st: "race_store u cur g0 t c r a (promises s)" by (simp add: racing_def)
  then have "u < length (promises s)" "is_load (fst (promises s ! u))"
    "snd (promises s ! u) = Pending"
    by (simp_all add: race_store_def)
  then show ?thesis
    using race_store_load [OF st] by (simp add: settle_listing_promises_other)
qed

lemma waiting_settle:
  assumes "waiting u a (promises s)"
  shows "promises (settle_listing u oc s) ! a = (AsyncP, settled_as oc)"
proof -
  from assms have "u < length (promises s)" "is_load (fst (promises s ! u))"
    "snd (promises s ! u) = Pending"
    by (simp_all add: waiting_def)
  then show ?thesis
    using waiting_load [OF assms] by (simp add: settle_listing_promises_other)
qed

section \<open>A settled promise stays as it is\<close>

lemma extends_settled:
  "extends s s' \<Longrightarrow> i < length (promises s) \<Longrightarrow>
   i < length (promises s') \<and> promises s' ! i = promises s ! i"
  by (auto simp: extends_def nth_append)

lemma drain_settled:
  "i < length (promises s) \<Longrightarrow> settled (snd (promises s ! i)) \<Longrightarrow>
   promises (drain s) ! i = promises s ! i"
  by (simp add: propagate_settled)

lemma settle_listing_length [simp]:
  "length (promises (settle_listing p oc s)) = length (promises s)"
  by (simp add: settle_listing_def Let_def)

lemma settle_listing_settled:
  assumes "i < length (promises s)" "settled (snd (promises s ! i))"
  shows "promises (settle_listing p oc s) ! i = promises s ! i"
proof (cases "p < length (promises s) \<and> is_load (fst (promises s ! p)) \<and>
              snd (promises s ! p) = Pending")
  case False
  then show ?thesis by (simp add: settle_listing_idle)
next
  case True
  then have "i \<noteq> p" using assms(2) by (auto simp: settled_def)
  then show ?thesis
    using True assms by (simp add: settle_listing_promises_other propagate_settled)
qed

lemma resolve_with_settled:
  "settled (snd (promises s ! i)) \<Longrightarrow> promises (resolve_with t v s) ! i = promises s ! i"
  by (rule resolve_with_not_Pending) (auto simp: settled_def)

lemma fire_settled:
  "i < length (promises s) \<Longrightarrow> settled (snd (promises s ! i)) \<Longrightarrow>
   promises (fire due s) ! i = promises s ! i"
  by (induction due s rule: fire.induct)
     (simp_all add: propagate_settled resolve_with_settled)

lemma elapse_settled:
  "i < length (promises s) \<Longrightarrow> settled (snd (promises s ! i)) \<Longrightarrow>
   promises (elapse d s) ! i = promises s ! i"
  by (simp add: elapse_eq fire_settled)

lemma step_settled:
  assumes "i < length (promises s)" "settled (snd (promises s ! i))"
  shows "i < length (promises (step e s)) \<and> promises (step e s) ! i = promises s ! i"
proof (cases e)
  case Fetch
  from extends_settled [OF fetchGroups_extends assms(1)] assms(2)
  show ?thesis using Fetch by (simp add: propagate_settled)
next
  case (SubscriptionsUpdated subs)
  have "extends s (s\<lparr>subscriptions := subs\<rparr>)" by (simp add: extends_def)
  from extends_settled [OF extends_trans [OF this onSubscriptionUpdated_extends] assms(1)] assms(2)
  show ?thesis using SubscriptionsUpdated by (simp add: propagate_settled)
next
  case (LoginsChanged lg)
  then show ?thesis using assms by simp
next
  case (ListingSettles p oc)
  then show ?thesis using assms by (simp add: settle_listing_settled)
next
  case (Elapse d)
  then show ?thesis using assms by (simp add: elapse_settled)
qed

lemma run_settled:
  "i < length (promises s) \<Longrightarrow> settled (snd (promises s ! i)) \<Longrightarrow>
   i < length (promises (run es s)) \<and> promises (run es s) ! i = promises s ! i"
proof (induction es arbitrary: s)
  case Nil
  then show ?case by (simp add: run_def)
next
  case (Cons e es)
  from step_settled [OF Cons.prems, of e]
  have 1: "i < length (promises (step e s))" and 2: "promises (step e s) ! i = promises s ! i"
    by simp_all
  from Cons.IH [OF 1] 2 Cons.prems(2) show ?case by (simp add: run_def)
qed

section \<open>Timers\<close>

lemma race_store_resolve_with:
  assumes "race_store u cur g0 t c r a (promises s)" "t' \<noteq> t"
    "fst (promises s ! t') = TimerP x"
  shows "race_store u cur g0 t c r a (promises (resolve_with t' v s))"
proof (cases "t' < length (promises s) \<and> snd (promises s ! t') = Pending")
  case False
  then show ?thesis using assms(1) by (auto simp: resolve_with_def)
next
  case True
  then have "t' \<notin> {u, cur, t, c, r, a}"
    using assms by (auto simp: race_store_def)
  then show ?thesis
    using assms(1) True by (simp add: resolve_with_def race_store_update)
qed

lemma waiting_resolve_with:
  assumes "waiting u a (promises s)" "fst (promises s ! t') = TimerP x"
  shows "waiting u a (promises (resolve_with t' v s))"
proof (cases "t' < length (promises s) \<and> snd (promises s ! t') = Pending")
  case False
  then show ?thesis using assms(1) by (auto simp: resolve_with_def)
next
  case True
  then have "t' \<notin> {u, a}"
    using assms by (auto simp: waiting_def)
  then show ?thesis
    using assms(1) True by (simp add: resolve_with_def waiting_update)
qed

lemma timer_entries_Cons:
  "timer_entries ((dl, t, v) # due) (promises s) \<Longrightarrow>
   timer_entries due (promises (drain (resolve_with t v s)))"
  by (simp add: timer_entries_def fst_propagate_nth resolve_with_kind)

lemma fire_race_keep:
  assumes "race_store u cur g0 t c r a (promises s)"
    "timer_entries due (promises s)" "\<forall>e \<in> set due. fst (snd e) \<noteq> t"
  shows "race_store u cur g0 t c r a (promises (fire due s))"
  using assms
proof (induction due s rule: fire.induct)
  case (1 s)
  then show ?case by simp
next
  case (2 dl' t' v' due s)
  from "2.prems"(2) obtain x where x: "fst (promises s ! t') = TimerP x"
    by (auto simp: timer_entries_def)
  have "race_store u cur g0 t c r a (promises (drain (resolve_with t' v' s)))"
    using race_store_resolve_with [OF "2.prems"(1) _ x] "2.prems"(3)
    by (simp add: race_store_propagate)
  then show ?case
    using "2.IH" timer_entries_Cons [OF "2.prems"(2)] "2.prems"(3) by simp
qed

lemma fire_waiting_keep:
  assumes "waiting u a (promises s)" "timer_entries due (promises s)"
  shows "waiting u a (promises (fire due s))"
  using assms
proof (induction due s rule: fire.induct)
  case (1 s)
  then show ?case by simp
next
  case (2 dl' t' v' due s)
  from "2.prems"(2) obtain x where x: "fst (promises s ! t') = TimerP x"
    by (auto simp: timer_entries_def)
  have "waiting u a (promises (drain (resolve_with t' v' s)))"
    using waiting_resolve_with [OF "2.prems"(1) x] by (simp add: waiting_propagate)
  then show ?case
    using "2.IH" timer_entries_Cons [OF "2.prems"(2)] by simp
qed

lemma fire_race_hit:
  assumes "race_store u cur g0 t c r a (promises s)"
    "timer_entries due (promises s)" "(dl, t, Own cur) \<in> set due"
    "\<forall>e \<in> set due. fst (snd e) = t \<longrightarrow> e = (dl, t, Own cur)"
  shows "promises (fire due s) ! a = (AsyncP, Fulfilled g0)"
  using assms
proof (induction due s rule: fire.induct)
  case (1 s)
  then show ?case by simp
next
  case (2 dl' t' v' due s)
  show ?case
  proof (cases "t' = t")
    case True
    have "(dl', t', v') = (dl, t, Own cur)"
      using "2.prems"(4) True by (metis fst_conv list.set_intros(1) snd_conv)
    then have e: "dl' = dl" "v' = Own cur" by simp_all
    have tp: "t < length (promises s)" "promises s ! t = (TimerP (Own cur), Pending)"
      and al: "a < length (promises s)"
      using "2.prems"(1) by (simp_all add: race_store_def)
    let ?s = "drain (resolve_with t (Own cur) s)"
    have "promises ?s ! a = (AsyncP, Fulfilled g0)"
      using race_store_timer [OF "2.prems"(1)] tp by (simp add: resolve_with_def)
    moreover have "a < length (promises ?s)" using al by simp
    ultimately have "promises (fire due ?s) ! a = (AsyncP, Fulfilled g0)"
      using fire_settled [of a ?s due] by (simp add: settled_def)
    then show ?thesis using True e by simp
  next
    case False
    from "2.prems"(2) obtain x where x: "fst (promises s ! t') = TimerP x"
      by (auto simp: timer_entries_def)
    have rs: "race_store u cur g0 t c r a (promises (drain (resolve_with t' v' s)))"
      using race_store_resolve_with [OF "2.prems"(1) False x]
      by (simp add: race_store_propagate)
    have mem: "(dl, t, Own cur) \<in> set due" using "2.prems"(3) False by auto
    have un: "\<forall>e \<in> set due. fst (snd e) = t \<longrightarrow> e = (dl, t, Own cur)"
      using "2.prems"(4) by simp
    have "promises (fire due (drain (resolve_with t' v' s))) ! a = (AsyncP, Fulfilled g0)"
      using rs timer_entries_Cons [OF "2.prems"(2)] mem un by (rule "2.IH")
    then show ?thesis by simp
  qed
qed

lemma timers_ok_entries:
  assumes "timers_ok s" "set due \<subseteq> set (timers s)"
  shows "timer_entries due (promises s)"
  unfolding timer_entries_def
proof
  fix e assume "e \<in> set due"
  then have "(fst e, fst (snd e), snd (snd e)) \<in> set (timers s)" using assms(2) by auto
  from timers_okD [OF assms(1) this]
  show "fst (snd e) < length (promises s) \<and> (\<exists>x. fst (promises s ! fst (snd e)) = TimerP x)" .
qed

lemma elapse_promises:
  "promises (elapse d s) =
     promises (fire (filter (\<lambda>(dl, t, v). dl \<le> now s + d) (timers s))
       (s\<lparr>now := now s + d, timers := filter (\<lambda>(dl, t, v). \<not> dl \<le> now s + d) (timers s)\<rparr>))"
  by (simp add: elapse_eq)

lemma racing_elapse_before:
  assumes inv: "cache_inv s" and rc: "racing u cur g0 dl t c r a s" and d: "now s + d < dl"
  shows "racing u cur g0 dl t c r a (elapse d s)"
proof -
  let ?due = "filter (\<lambda>(dl, t, v). dl \<le> now s + d) (timers s)"
  let ?s2 = "s\<lparr>now := now s + d, timers := filter (\<lambda>(dl, t, v). \<not> dl \<le> now s + d) (timers s)\<rparr>"
  from rc have st: "race_store u cur g0 t c r a (promises s)"
    and tm: "(dl, t, Own cur) \<in> set (timers s)"
    and un: "\<forall>e \<in> set (timers s). fst (snd e) = t \<longrightarrow> e = (dl, t, Own cur)"
    by (simp_all add: racing_def)
  have te: "timer_entries ?due (promises ?s2)"
    using timers_ok_entries [of s ?due] inv by (simp add: cache_inv_def)
  have nt: "\<forall>e \<in> set ?due. fst (snd e) \<noteq> t"
  proof
    fix e assume e: "e \<in> set ?due"
    show "fst (snd e) \<noteq> t"
    proof
      assume "fst (snd e) = t"
      moreover have "e \<in> set (timers s)" using e by simp
      ultimately have "e = (dl, t, Own cur)" using un by blast
      then have "dl \<le> now s + d" using e by simp
      with d show False by simp
    qed
  qed
  have st': "race_store u cur g0 t c r a (promises ?s2)" using st by simp
  have 1: "race_store u cur g0 t c r a (promises (elapse d s))"
    unfolding elapse_promises using st' te nt by (rule fire_race_keep)
  have 2: "(dl, t, Own cur) \<in> set (timers (elapse d s))"
    using tm d by simp
  have 3: "\<forall>e \<in> set (timers (elapse d s)). fst (snd e) = t \<longrightarrow> e = (dl, t, Own cur)"
  proof (intro ballI impI)
    fix e assume "e \<in> set (timers (elapse d s))" "fst (snd e) = t"
    moreover then have "e \<in> set (timers s)" by simp
    ultimately show "e = (dl, t, Own cur)" using un by blast
  qed
  have 4: "now (elapse d s) < dl" using d by simp
  show ?thesis
    unfolding racing_def using 1 2 3 4 by blast
qed

lemma racing_elapse_due:
  assumes inv: "cache_inv s" and rc: "racing u cur g0 dl t c r a s" and d: "dl \<le> now s + d"
  shows "promises (elapse d s) ! a = (AsyncP, Fulfilled g0)"
proof -
  let ?due = "filter (\<lambda>(dl, t, v). dl \<le> now s + d) (timers s)"
  let ?s2 = "s\<lparr>now := now s + d, timers := filter (\<lambda>(dl, t, v). \<not> dl \<le> now s + d) (timers s)\<rparr>"
  from rc have st: "race_store u cur g0 t c r a (promises s)"
    and tm: "(dl, t, Own cur) \<in> set (timers s)"
    and un: "\<forall>e \<in> set (timers s). fst (snd e) = t \<longrightarrow> e = (dl, t, Own cur)"
    by (simp_all add: racing_def)
  have te: "timer_entries ?due (promises ?s2)"
    using timers_ok_entries [of s ?due] inv by (simp add: cache_inv_def)
  have mem: "(dl, t, Own cur) \<in> set ?due" using tm d by simp
  have un': "\<forall>e \<in> set ?due. fst (snd e) = t \<longrightarrow> e = (dl, t, Own cur)"
  proof (intro ballI impI)
    fix e assume "e \<in> set ?due" "fst (snd e) = t"
    moreover then have "e \<in> set (timers s)" by simp
    ultimately show "e = (dl, t, Own cur)" using un by blast
  qed
  have st': "race_store u cur g0 t c r a (promises ?s2)" using st by simp
  have "promises (fire ?due ?s2) ! a = (AsyncP, Fulfilled g0)"
    using st' te mem un' by (rule fire_race_hit)
  then show ?thesis unfolding elapse_promises .
qed

lemma waiting_elapse:
  assumes inv: "cache_inv s" and w: "waiting u a (promises s)"
  shows "waiting u a (promises (elapse d s))"
proof -
  let ?due = "filter (\<lambda>(dl, t, v). dl \<le> now s + d) (timers s)"
  let ?s2 = "s\<lparr>now := now s + d, timers := filter (\<lambda>(dl, t, v). \<not> dl \<le> now s + d) (timers s)\<rparr>"
  have te: "timer_entries ?due (promises ?s2)"
    using timers_ok_entries [of s ?due] inv by (simp add: cache_inv_def)
  have w': "waiting u a (promises ?s2)" using w by simp
  have "waiting u a (promises (fire ?due ?s2))"
    using w' te by (rule fire_waiting_keep)
  then show ?thesis unfolding elapse_promises .
qed

section \<open>One call along a sequence of events\<close>

lemma fetchGroups_now [simp]: "now (snd (fetchGroups s)) = now s"
  using fetchGroups_extends [of s] by (simp add: extends_def)

lemma onSubscriptionUpdated_now [simp]: "now (onSubscriptionUpdated s) = now s"
  using onSubscriptionUpdated_extends [of s] by (simp add: extends_def)

lemma step_now: "now (step e s) = now s + (case e of Elapse d \<Rightarrow> d | _ \<Rightarrow> 0)"
  by (cases e) simp_all

lemma step_now_elapsed: "now (step e s) + elapsed es = now s + elapsed (e # es)"
  by (cases e) simp_all

lemma racing_step:
  assumes inv: "cache_inv s" and rc: "racing u cur g0 dl t c r a s"
    and e: "\<not> settles u e" and d: "now (step e s) < dl"
  shows "racing u cur g0 dl t c r a (step e s)"
proof (cases e)
  case Fetch
  then show ?thesis
    using racing_extends [OF rc fetchGroups_extends] by (simp add: racing_drain)
next
  case (SubscriptionsUpdated subs)
  have "extends s (s\<lparr>subscriptions := subs\<rparr>)" by (simp add: extends_def)
  from racing_extends [OF rc extends_trans [OF this onSubscriptionUpdated_extends]]
  show ?thesis using SubscriptionsUpdated by (simp add: racing_drain)
next
  case (LoginsChanged lg)
  then show ?thesis using rc by (simp add: racing_def)
next
  case (ListingSettles p oc)
  then show ?thesis using e racing_settle_other [OF rc, of p oc] by simp
next
  case (Elapse d')
  then show ?thesis using d racing_elapse_before [OF inv rc, of d'] by simp
qed

lemma waiting_step:
  assumes inv: "cache_inv s" and w: "waiting u a (promises s)" and e: "\<not> settles u e"
  shows "waiting u a (promises (step e s))"
proof (cases e)
  case Fetch
  then show ?thesis
    using waiting_extends [OF w fetchGroups_extends] by (simp add: waiting_propagate)
next
  case (SubscriptionsUpdated subs)
  have "extends s (s\<lparr>subscriptions := subs\<rparr>)" by (simp add: extends_def)
  from waiting_extends [OF w extends_trans [OF this onSubscriptionUpdated_extends]]
  show ?thesis using SubscriptionsUpdated by (simp add: waiting_propagate)
next
  case (LoginsChanged lg)
  then show ?thesis using w by simp
next
  case (ListingSettles p oc)
  then show ?thesis using e waiting_settle_other [OF w, of p oc] by simp
next
  case (Elapse d)
  then show ?thesis using waiting_elapse [OF inv w] by simp
qed

lemma run_Cons: "run (e # es) s = run es (step e s)"
  by (simp add: run_def)

lemma run_append: "run (es @ es') s = run es' (run es s)"
  by (simp add: run_def)

lemma run_now: "now (run es s) = now s + elapsed es"
proof (induction es arbitrary: s)
  case Nil
  then show ?case by (simp add: run_def)
next
  case (Cons e es)
  then show ?case using step_now_elapsed [of e s es] by (simp add: run_Cons)
qed

text \<open>No listing of the call settles and the timer is not due: the call keeps waiting.\<close>

lemma racing_run_before:
  assumes "cache_inv s" "racing u cur g0 dl t c r a s"
    "\<forall>e \<in> set es. \<not> settles u e" "now s + elapsed es < dl"
  shows "racing u cur g0 dl t c r a (run es s)"
  using assms
proof (induction es arbitrary: s)
  case Nil
  then show ?case by (simp add: run_def)
next
  case (Cons e es)
  have nw: "now (step e s) + elapsed es = now s + elapsed (e # es)"
    by (rule step_now_elapsed)
  then have d: "now (step e s) < dl" using Cons.prems(4) by linarith
  have "racing u cur g0 dl t c r a (step e s)"
    using racing_step [OF Cons.prems(1,2) _ d] Cons.prems(3) by simp
  moreover have "cache_inv (step e s)" using Cons.prems(1) by (rule step_inv)
  moreover have "now (step e s) + elapsed es < dl" using nw Cons.prems(4) by linarith
  ultimately show ?case
    using Cons.IH [of "step e s"] Cons.prems(3) by (simp add: run_Cons)
qed

text \<open>No listing of the call settles and the timer comes due: the stale result.\<close>

lemma racing_run_due:
  assumes "cache_inv s" "racing u cur g0 dl t c r a s"
    "\<forall>e \<in> set es. \<not> settles u e" "dl \<le> now s + elapsed es"
  shows "a < length (promises (run es s)) \<and> promises (run es s) ! a = (AsyncP, Fulfilled g0)"
  using assms
proof (induction es arbitrary: s)
  case Nil
  then show ?case by (simp add: run_def racing_def)
next
  case (Cons e es)
  have al: "a < length (promises s)" using Cons.prems(2) by (simp add: racing_def race_store_def)
  show ?case
  proof (cases "now (step e s) < dl")
    case True
    have nw: "now (step e s) + elapsed es = now s + elapsed (e # es)"
      by (rule step_now_elapsed)
    have "racing u cur g0 dl t c r a (step e s)"
      using racing_step [OF Cons.prems(1,2) _ True] Cons.prems(3) by simp
    moreover have "cache_inv (step e s)" using Cons.prems(1) by (rule step_inv)
    moreover have "dl \<le> now (step e s) + elapsed es" using nw Cons.prems(4) by linarith
    ultimately show ?thesis
      using Cons.IH [of "step e s"] Cons.prems(3) by (simp add: run_Cons)
  next
    case False
    moreover have "now s < dl" using Cons.prems(2) by (simp add: racing_def)
    ultimately obtain d where e: "e = Elapse d" and d: "dl \<le> now s + d"
      by (cases e) auto
    have 1: "promises (step e s) ! a = (AsyncP, Fulfilled g0)"
      using racing_elapse_due [OF Cons.prems(1,2) d] e by simp
    have 2: "a < length (promises (step e s))" using al e by simp
    from run_settled [OF 2, of es] 1 show ?thesis by (simp add: run_Cons settled_def)
  qed
qed

lemma waiting_run:
  assumes "cache_inv s" "waiting u a (promises s)" "\<forall>e \<in> set es. \<not> settles u e"
  shows "waiting u a (promises (run es s))"
  using assms
proof (induction es arbitrary: s)
  case Nil
  then show ?case by (simp add: run_def)
next
  case (Cons e es)
  have "waiting u a (promises (step e s))"
    using waiting_step [OF Cons.prems(1,2)] Cons.prems(3) by simp
  moreover have "cache_inv (step e s)" using Cons.prems(1) by (rule step_inv)
  ultimately show ?case using Cons.IH [of "step e s"] Cons.prems(3) by (simp add: run_Cons)
qed

section \<open>The job queue between events\<close>

text \<open>Running the job queue once more changes nothing: no reaction is left to run.\<close>

lemma react_idem: "react ps (react ps pr) = react ps pr"
  by (cases pr)
     (auto simp: react_def adopt_def resolved_with_def
        split: pstate.splits pkind.splits jsval.splits)

lemma propagate_idem: "propagate (propagate ps) = propagate ps"
proof (rule nth_equalityI)
  show "length (propagate (propagate ps)) = length (propagate ps)" by simp
next
  fix i
  assume "i < length (propagate (propagate ps))"
  then have i: "i < length ps" by simp
  then show "propagate (propagate ps) ! i = propagate ps ! i"
  proof (induction i rule: less_induct)
    case (less i)
    have "take i (propagate (propagate ps)) = take i (propagate ps)"
    proof (rule nth_equalityI)
      show "length (take i (propagate (propagate ps))) = length (take i (propagate ps))" by simp
    next
      fix j
      assume "j < length (take i (propagate (propagate ps)))"
      then have "j < i" by simp
      with less show "take i (propagate (propagate ps)) ! j = take i (propagate ps) ! j"
        by simp
    qed
    then have "propagate (propagate ps) ! i = react (take i (propagate ps)) (propagate ps ! i)"
      using less.prems by (simp add: propagate_nth)
    also have "\<dots> = react (take i (propagate ps)) (react (take i (propagate ps)) (ps ! i))"
      using less.prems by (simp add: propagate_nth)
    also have "\<dots> = propagate ps ! i"
      using less.prems by (simp add: react_idem propagate_nth)
    finally show ?case .
  qed
qed

lemma drain_idem: "drain (drain s) = drain s"
  by (simp add: drain_def propagate_idem)

text \<open>In every reachable state the job queue is empty.\<close>

lemma fire_quiescent:
  "propagate (promises s) = promises s \<Longrightarrow>
   propagate (promises (fire due s)) = promises (fire due s)"
  by (induction due s rule: fire.induct) (simp_all add: propagate_idem)

lemma step_quiescent:
  assumes "propagate (promises s) = promises s"
  shows "propagate (promises (step e s)) = promises (step e s)"
proof (cases e)
  case (ListingSettles p oc)
  show ?thesis
  proof (cases "p < length (promises s) \<and> is_load (fst (promises s ! p)) \<and>
                snd (promises s ! p) = Pending")
    case True
    then show ?thesis
      using ListingSettles by (simp add: settle_listing_promises_other propagate_idem)
  next
    case False
    then show ?thesis using ListingSettles assms by (simp add: settle_listing_idle)
  qed
next
  case (Elapse d)
  have "propagate (promises (elapse d s)) = promises (elapse d s)"
    unfolding elapse_promises using assms by (intro fire_quiescent) simp
  then show ?thesis using Elapse by simp
qed (use assms in \<open>simp_all add: propagate_idem\<close>)

lemma reachable_quiescent: "reachable s \<Longrightarrow> propagate (promises s) = promises s"
  by (induction rule: reachable.induct) (simp_all add: propagate_idem step_quiescent)

section \<open>A call of \<open>updateGroups\<close>\<close>

text \<open>
  An id with an entry of its own in one of the two dictionaries is not the name of a member of
  \<open>Object.prototype\<close>: \<open>updateGroups\<close> never writes under such a name.
\<close>

lemma current_own_key:
  "cache_inv s \<Longrightarrow> current s k = Some cur \<Longrightarrow> k \<notin> set object_prototype"
  using own_keys_okD [of s k] by (auto simp: cache_inv_def)

lemma updates_own_key:
  "cache_inv s \<Longrightarrow> updates s k = Some u \<Longrightarrow> k \<notin> set object_prototype"
  using own_keys_okD [of s k] by (auto simp: cache_inv_def)

lemma updateGroups_fst_cached:
  "sub_id sub \<notin> set object_prototype \<Longrightarrow> current s (sub_id sub) = Some cur \<Longrightarrow>
   fst (updateGroups c sub s) = length (promises s) + length (started c sub s) + 3"
  by (simp add: updateGroups_unfold started_def property_plain split: option.splits)

lemma updateGroups_fst_uncached:
  "sub_id sub \<notin> set object_prototype \<Longrightarrow> current s (sub_id sub) = None \<Longrightarrow>
   fst (updateGroups c sub s) = length (promises s) + length (started c sub s)"
  by (simp add: updateGroups_unfold started_def property_plain split: option.splits)

lemma update_of_load:
  assumes "cache_inv s" "sub_id sub \<notin> set object_prototype"
  shows "update_of sub s < length (promises s @ started c sub s) \<and>
         is_load (fst ((promises s @ started c sub s) ! update_of sub s)) \<and>
         snd ((promises s @ started c sub s) ! update_of sub s) = Pending"
proof (cases "updates s (sub_id sub)")
  case None
  then show ?thesis using assms(2) by (simp add: update_of_def started_def property_plain)
next
  case (Some u)
  have "updates_ok s" using assms by (simp add: cache_inv_def)
  from updates_okD [OF this Some] show ?thesis
    using Some by (auto simp: update_of_def started_def)
qed

lemma updateGroups_racing:
  assumes inv: "cache_inv s" and cur: "current s (sub_id sub) = Some cur"
    and g0: "snd (promises s ! cur) = Fulfilled g0"
  shows "\<exists>t c r. racing (update_of sub s) cur g0 (now s + 500) t c r
           (fst (updateGroups creds sub s)) (snd (updateGroups creds sub s))"
proof -
  let ?n = "length (promises s) + length (started creds sub s)"
  let ?ps = "promises s @ started creds sub s"
  let ?u = "update_of sub s"
  have np: "sub_id sub \<notin> set object_prototype"
    using inv cur by (rule current_own_key)
  have n: "?n = length (promises s) +
             (case property (updates s) (sub_id sub) of Some v \<Rightarrow> 0 | None \<Rightarrow> 1)"
    by (simp add: started_def split: option.splits)
  have ans: "answer sub s = [(TimerP (Own cur), Pending), (CatchP ?u (Own cur), Pending),
               (RaceP ?n (?n + 1), Pending), (AsyncP, Follows (?n + 2))]"
    using cur n np
    by (cases "updates s (sub_id sub)") (simp_all add: answer_def Let_def property_plain)
  have ps: "promises (snd (updateGroups creds sub s)) = ?ps @ answer sub s"
    by (simp add: updateGroups_promises)
  have len: "length ?ps = ?n" by simp
  have fst: "fst (updateGroups creds sub s) = ?n + 3"
    using np cur by (rule updateGroups_fst_cached)
  have cl: "cur < length (promises s)"
    using inv cur current_okD [of s "sub_id sub" cur] by (simp add: cache_inv_def)
  from update_of_load [OF inv np, of creds]
  have ul: "?u < ?n" and uk: "is_load (fst (?ps ! ?u))" and up: "snd (?ps ! ?u) = Pending"
    by simp_all
  have at: "(?ps @ answer sub s) ! i = ?ps ! i" if "i < ?n" for i
    using that len by (simp only: nth_append if_True)
  have new: "(?ps @ answer sub s) ! (?n + j) = answer sub s ! j" for j
    using len by (metis nth_append_length_plus)
  have "race_store ?u cur g0 ?n (?n + 1) (?n + 2) (?n + 3) (?ps @ answer sub s)"
    unfolding race_store_def
  proof (intro conjI)
    show "?n + 3 < length (?ps @ answer sub s)" by (simp add: ans)
    show "?u < ?n" by (rule ul)
    show "cur < ?n" using cl by simp
    show "is_load (fst ((?ps @ answer sub s) ! ?u))" using at [OF ul] uk by simp
    show "snd ((?ps @ answer sub s) ! ?u) = Pending" using at [OF ul] up by simp
    show "snd ((?ps @ answer sub s) ! cur) = Fulfilled g0"
      using cl g0 by (simp add: nth_append)
    show "(?ps @ answer sub s) ! ?n = (TimerP (Own cur), Pending)"
      using new [of 0] by (simp add: ans)
    show "(?ps @ answer sub s) ! (?n + 1) = (CatchP ?u (Own cur), Pending)"
      using new [of 1] by (simp add: ans)
    show "(?ps @ answer sub s) ! (?n + 2) = (RaceP ?n (?n + 1), Pending)"
      using new [of 2] by (simp add: ans)
    show "(?ps @ answer sub s) ! (?n + 3) = (AsyncP, Follows (?n + 2))"
      using new [of 3] by (simp add: ans)
  qed simp_all
  moreover have "timers (snd (updateGroups creds sub s)) = timers s @ [(now s + 500, ?n, Own cur)]"
    using cur by (simp add: updateGroups_timers)
  moreover have "\<forall>e \<in> set (timers s). fst (snd e) \<noteq> ?n"
  proof
    fix e assume "e \<in> set (timers s)"
    then have "(fst e, fst (snd e), snd (snd e)) \<in> set (timers s)" by simp
    then have "fst (snd e) < length (promises s)"
      using inv timers_okD [of s "fst e" "fst (snd e)" "snd (snd e)"]
      by (simp add: cache_inv_def)
    then show "fst (snd e) \<noteq> ?n" by simp
  qed
  ultimately have "racing ?u cur g0 (now s + 500) ?n (?n + 1) (?n + 2) (?n + 3)
                     (snd (updateGroups creds sub s))"
    unfolding racing_def ps by auto
  then show ?thesis unfolding fst by blast
qed

lemma updateGroups_waiting:
  assumes inv: "cache_inv s" and np: "sub_id sub \<notin> set object_prototype"
    and cur: "current s (sub_id sub) = None"
  shows "waiting (update_of sub s) (fst (updateGroups creds sub s))
           (promises (snd (updateGroups creds sub s)))"
proof -
  let ?n = "length (promises s) + length (started creds sub s)"
  let ?ps = "promises s @ started creds sub s"
  let ?u = "update_of sub s"
  have ans: "answer sub s = [(AsyncP, Follows ?u)]"
    using cur np
    by (cases "updates s (sub_id sub)") (simp_all add: answer_def Let_def property_plain)
  have ps: "promises (snd (updateGroups creds sub s)) = ?ps @ [(AsyncP, Follows ?u)]"
    by (simp add: updateGroups_promises ans)
  have fst: "fst (updateGroups creds sub s) = ?n"
    using np cur by (rule updateGroups_fst_uncached)
  from update_of_load [OF inv np, of creds]
  have ul: "?u < ?n" and uk: "is_load (fst (?ps ! ?u))" and up: "snd (?ps ! ?u) = Pending"
    by simp_all
  have at: "(?ps @ [(AsyncP, Follows ?u)]) ! ?u = ?ps ! ?u"
    using ul by (simp only: nth_append length_append if_True)
  have new: "(?ps @ [(AsyncP, Follows ?u)]) ! ?n = (AsyncP, Follows ?u)"
    by (metis length_append nth_append_length)
  show ?thesis
    unfolding waiting_def ps fst using ul uk up at new by simp
qed

lemma pstate_of_nth: "i < length ps \<Longrightarrow> pstate_of ps i = snd (ps ! i)"
  by (simp add: pstate_of_def)

lemma racing_run_settle:
  assumes inv: "cache_inv s" and rc: "racing u cur g0 dl t c r a s"
    and es: "\<forall>e \<in> set es. \<not> settles u e" and d: "now s + elapsed es < dl"
  shows "pstate_of (promises (run (es @ ListingSettles u oc # es') s)) a =
           Fulfilled (case oc of Succeeds g \<Rightarrow> g | Fails e \<Rightarrow> g0)"
proof -
  let ?s1 = "run es s"
  let ?s2 = "step (ListingSettles u oc) ?s1"
  have rc1: "racing u cur g0 dl t c r a ?s1"
    using inv rc es d by (rule racing_run_before)
  then have al: "a < length (promises ?s1)" by (simp add: racing_def race_store_def)
  have 1: "promises ?s2 ! a = (AsyncP, Fulfilled (case oc of Succeeds g \<Rightarrow> g | Fails e \<Rightarrow> g0))"
    using racing_settle [OF rc1] by simp
  have 2: "a < length (promises ?s2)" using al by simp
  from run_settled [OF 2, of es'] 1
  show ?thesis by (simp add: run_append run_Cons pstate_of_nth settled_def)
qed

lemma racing_run_timer:
  assumes inv: "cache_inv s" and rc: "racing u cur g0 dl t c r a s"
    and es: "\<forall>e \<in> set es. \<not> settles u e" and d: "dl \<le> now s + elapsed es"
  shows "pstate_of (promises (run (es @ es') s)) a = Fulfilled g0"
proof -
  from racing_run_due [OF inv rc es d]
  have 1: "a < length (promises (run es s))"
    and 2: "promises (run es s) ! a = (AsyncP, Fulfilled g0)" by simp_all
  from run_settled [OF 1, of es'] 2
  show ?thesis by (simp add: run_append pstate_of_nth settled_def)
qed

lemma waiting_run_settle:
  assumes inv: "cache_inv s" and w: "waiting u a (promises s)"
    and es: "\<forall>e \<in> set es. \<not> settles u e"
  shows "pstate_of (promises (run (es @ ListingSettles u oc # es') s)) a = settled_as oc"
proof -
  let ?s1 = "run es s"
  let ?s2 = "step (ListingSettles u oc) ?s1"
  have w1: "waiting u a (promises ?s1)" using inv w es by (rule waiting_run)
  then have al: "a < length (promises ?s1)" by (simp add: waiting_def)
  have 1: "promises ?s2 ! a = (AsyncP, settled_as oc)"
    using waiting_settle [OF w1] by simp
  have 2: "a < length (promises ?s2)" using al by simp
  have 3: "settled (snd (promises ?s2 ! a))" using 1 by (cases oc) (simp_all add: settled_def)
  from run_settled [OF 2 3, of es'] 1
  show ?thesis by (simp add: run_append run_Cons pstate_of_nth)
qed

lemma racing_never_rejected:
  assumes "cache_inv s" "racing u cur g0 dl t c r a s"
  shows "a < length (promises (run es s)) \<and>
         (snd (promises (run es s) ! a) = Follows r \<or>
          (\<exists>g. snd (promises (run es s) ! a) = Fulfilled g))"
  using assms
proof (induction es arbitrary: s)
  case Nil
  then show ?case by (simp add: run_def racing_def race_store_def)
next
  case (Cons e es)
  have al: "a < length (promises s)" using Cons.prems(2) by (simp add: racing_def race_store_def)
  have nw: "now s < dl" using Cons.prems(2) by (simp add: racing_def)
  have fin: ?case if "promises (step e s) ! a = (AsyncP, Fulfilled g)"
    "a < length (promises (step e s))" for g
    using run_settled [OF that(2), of es] that(1) by (simp add: run_Cons settled_def)
  show ?case
  proof (cases "settles u e")
    case True
    then obtain oc where e: "e = ListingSettles u oc" by (cases e) auto
    show ?thesis
      using fin racing_settle [OF Cons.prems(2), of oc] al e by simp
  next
    case False
    show ?thesis
    proof (cases "now (step e s) < dl")
      case True
      have "racing u cur g0 dl t c r a (step e s)"
        using Cons.prems False True by (rule racing_step)
      moreover have "cache_inv (step e s)" using Cons.prems(1) by (rule step_inv)
      ultimately show ?thesis using Cons.IH [of "step e s"] by (simp add: run_Cons)
    next
      case False
      with nw obtain d where e: "e = Elapse d" and d: "dl \<le> now s + d"
        by (cases e) auto
      show ?thesis
        using fin racing_elapse_due [OF Cons.prems d] al e by simp
    qed
  qed
qed

section \<open>Counting the remote listings\<close>

lemma map_fst_propagate: "map fst (propagate ps) = map fst ps"
  by (rule nth_equalityI) (simp_all add: fst_propagate_nth)

lemma listings_drain [simp]: "listings k (drain s) = listings k s"
  by (simp add: listings_def map_fst_propagate)

lemma listings_cong: "map fst (promises s') = map fst (promises s) \<Longrightarrow> listings k s' = listings k s"
  by (simp add: listings_def)

lemma map_fst_resolve_with: "map fst (promises (resolve_with t v s)) = map fst (promises s)"
  by (rule nth_equalityI) (simp_all add: resolve_with_kind)

lemma map_fst_fire: "map fst (promises (fire due s)) = map fst (promises s)"
  by (induction due s rule: fire.induct) (simp_all add: map_fst_propagate map_fst_resolve_with)

lemma listings_elapse [simp]: "listings k (elapse d s) = listings k s"
  by (rule listings_cong) (simp add: elapse_promises map_fst_fire)

lemma map_fst_list_update_same: "map fst (ps[p := (fst (ps ! p), x)]) = map fst ps"
proof (rule nth_equalityI)
  fix i
  assume "i < length (map fst (ps[p := (fst (ps ! p), x)]))"
  then show "map fst (ps[p := (fst (ps ! p), x)]) ! i = map fst ps ! i"
    by (cases "i = p") simp_all
qed simp

lemma listings_settle_listing [simp]: "listings k (settle_listing p oc s) = listings k s"
proof (cases "p < length (promises s) \<and> is_load (fst (promises s ! p)) \<and>
              snd (promises s ! p) = Pending")
  case False
  then show ?thesis by (simp add: settle_listing_idle)
next
  case True
  then show ?thesis
    by (intro listings_cong)
       (simp add: settle_listing_promises_other map_fst_propagate map_fst_list_update_same)
qed

lemma listings_new_promise_AsyncP [simp]:
  "listings k (snd (new_promise AsyncP st s)) = listings k s"
  by (simp add: listings_def)

lemma listings_lookupCredentials [simp]:
  "listings k (snd (lookupCredentials tn s)) = listings k s"
  by (simp add: listings_def lookupCredentials_def)

lemma listings_answer: "filter (load_for k) (map fst (answer sub s)) = []"
  by (simp add: answer_def Let_def split: option.splits jsval.splits)

lemma listings_updateGroups:
  "listings k (snd (updateGroups c sub s)) =
     listings k s + (if sub_id sub = k \<and> property (updates s) k = None then 1 else 0)"
  by (cases "property (updates s) (sub_id sub)")
     (auto simp: listings_def updateGroups_promises started_def listings_answer)

lemma updates_lookupCredentials [simp]: "updates (snd (lookupCredentials tn s)) = updates s"
  by (simp add: lookupCredentials_def)

lemma updates_updateGroups_kept:
  "updates s k = Some u \<Longrightarrow> updates (snd (updateGroups c sub s)) k = Some u"
  by (auto simp: updateGroups_updates_property property_None_iff split: option.splits)

lemma updateGroups_property_updates:
  "property (updates (snd (updateGroups c sub s))) (sub_id sub) \<noteq> None"
  by (cases "property (updates s) (sub_id sub)") (simp_all add: updateGroups_updates_property)

text \<open>While a refresh for \<open>k\<close> is pending, no method of the cache starts another one.\<close>

lemma fetchGroups_pending:
  assumes "updates s k = Some u"
  shows "updates (snd (fetchGroups s)) k = Some u \<and> listings k (snd (fetchGroups s)) = listings k s"
proof (cases "defaultSubscription s")
  case None
  then show ?thesis using assms by (simp add: fetchGroups_def)
next
  case (Some sub)
  show ?thesis
  proof (cases "fst (lookupCredentials (tenantId sub) s)")
    case None
    then show ?thesis
      using Some assms by (simp add: fetchGroups_def split_beta)
  next
    case (Some creds)
    then show ?thesis
      using \<open>defaultSubscription s = Some sub\<close> assms
      by (simp add: fetchGroups_def split_beta updates_updateGroups_kept listings_updateGroups)
  qed
qed

lemma onSubscriptionUpdated_pending:
  assumes "updates s k = Some u"
  shows "updates (onSubscriptionUpdated s) k = Some u \<and>
         listings k (onSubscriptionUpdated s) = listings k s"
proof -
  have l: "listings k (s\<lparr>defaultSubscription := x\<rparr>) = listings k s" for x
    by (simp add: listings_def)
  show ?thesis
    using assms l
    by (auto simp: onSubscriptionUpdated_def Let_def split_beta updates_updateGroups_kept
          listings_updateGroups split: option.splits)
qed

lemma settle_listing_pending:
  assumes inv: "cache_inv s" and u: "updates s k = Some u" and p: "p \<noteq> u"
  shows "updates (settle_listing p oc s) k = Some u"
proof (cases "p < length (promises s) \<and> is_load (fst (promises s ! p)) \<and>
              snd (promises s ! p) = Pending")
  case False
  then show ?thesis using u by (simp add: settle_listing_idle)
next
  case True
  then obtain c sub where pl: "p < length (promises s)"
    and at: "promises s ! p = (LoadGroups c sub, Pending)"
    by (auto simp: is_load_iff prod_eq_iff)
  have "updates s (sub_id sub) = Some p"
    using inv loads_okD [OF _ pl at] by (simp add: cache_inv_def)
  with u p have "sub_id sub \<noteq> k" by auto
  then show ?thesis
    using u by (simp add: settle_listing_updates [OF inv pl at])
qed

lemma step_pending:
  assumes inv: "cache_inv s" and u: "updates s k = Some u" and e: "\<not> settles u e"
  shows "updates (step e s) k = Some u \<and> listings k (step e s) = listings k s"
proof (cases e)
  case Fetch
  then show ?thesis using fetchGroups_pending [OF u] by simp
next
  case (SubscriptionsUpdated subs)
  have "updates (s\<lparr>subscriptions := subs\<rparr>) k = Some u" using u by simp
  from onSubscriptionUpdated_pending [OF this]
  have "updates (onSubscriptionUpdated (s\<lparr>subscriptions := subs\<rparr>)) k = Some u"
    and "listings k (onSubscriptionUpdated (s\<lparr>subscriptions := subs\<rparr>)) =
         listings k (s\<lparr>subscriptions := subs\<rparr>)"
    by simp_all
  moreover have "listings k (s\<lparr>subscriptions := subs\<rparr>) = listings k s"
    by (simp add: listings_def)
  ultimately show ?thesis using SubscriptionsUpdated by simp
next
  case (LoginsChanged lg)
  then show ?thesis using u by (simp add: listings_def)
next
  case (ListingSettles p oc)
  then show ?thesis using e settle_listing_pending [OF inv u, of p oc] by simp
next
  case (Elapse d)
  then show ?thesis using u by simp
qed

lemma run_pending:
  assumes "cache_inv s" "updates s k = Some u" "\<forall>e \<in> set es. \<not> settles u e"
  shows "updates (run es s) k = Some u \<and> listings k (run es s) = listings k s"
  using assms
proof (induction es arbitrary: s)
  case Nil
  then show ?case by (simp add: run_def)
next
  case (Cons e es)
  have 1: "updates (step e s) k = Some u" and 2: "listings k (step e s) = listings k s"
    using step_pending [OF Cons.prems(1,2), of e] Cons.prems(3) by simp_all
  have "cache_inv (step e s)" using Cons.prems(1) by (rule step_inv)
  from Cons.IH [OF this 1] Cons.prems(3) 2 show ?case by (simp add: run_Cons)
qed

lemma updateGroups_all_listings:
  assumes "\<forall>call \<in> set calls. sub_id (snd call) = k" "calls \<noteq> []"
  shows "listings k (updateGroups_all calls s) =
           listings k s + (if property (updates s) k = None then 1 else 0) \<and>
         property (updates (updateGroups_all calls s)) k \<noteq> None"
  using assms
proof (induction calls s rule: updateGroups_all.induct)
  case (1 s)
  then show ?case by simp
next
  case (2 creds sub calls s)
  let ?s1 = "snd (updateGroups creds sub s)"
  have k: "sub_id sub = k" using "2.prems"(1) by simp
  have l1: "listings k ?s1 = listings k s + (if property (updates s) k = None then 1 else 0)"
    using k by (simp add: listings_updateGroups)
  have u1: "property (updates ?s1) k \<noteq> None"
    using updateGroups_property_updates [of creds sub s] k by simp
  show ?case
  proof (cases "calls = []")
    case True
    then show ?thesis using l1 u1 by simp
  next
    case False
    with "2.IH" "2.prems"(1) have "listings k (updateGroups_all calls ?s1) =
        listings k ?s1 + (if property (updates ?s1) k = None then 1 else 0) \<and>
        property (updates (updateGroups_all calls ?s1)) k \<noteq> None"
      by simp
    then show ?thesis using l1 u1 by simp
  qed
qed

text \<open>
  No remote listing is ever invoked for an id that is the name of a member of
  \<open>Object.prototype\<close>: line 60 reads that member and line 61 takes it for a pending refresh.
\<close>

lemma listings_updateGroups_prototype:
  "k \<in> set object_prototype \<Longrightarrow> listings k (snd (updateGroups c sub s)) = listings k s"
  by (simp add: listings_updateGroups property_None_iff)

lemma listings_fetchGroups_prototype:
  "k \<in> set object_prototype \<Longrightarrow> listings k (snd (fetchGroups s)) = listings k s"
  by (simp add: fetchGroups_def split_beta listings_updateGroups_prototype split: option.splits)

lemma listings_onSubscriptionUpdated_prototype:
  assumes "k \<in> set object_prototype"
  shows "listings k (onSubscriptionUpdated s) = listings k s"
proof -
  have l: "listings k (s\<lparr>defaultSubscription := x\<rparr>) = listings k s" for x
    by (simp add: listings_def)
  show ?thesis
    using assms l
    by (simp add: onSubscriptionUpdated_def Let_def split_beta listings_updateGroups_prototype
          split: option.splits)
qed

lemma step_listings_prototype:
  assumes "k \<in> set object_prototype"
  shows "listings k (step e s) = listings k s"
proof -
  have "listings k (s\<lparr>subscriptions := subs\<rparr>) = listings k s" for subs
    by (simp add: listings_def)
  moreover have "listings k (s\<lparr>logins := lg\<rparr>) = listings k s" for lg
    by (simp add: listings_def)
  ultimately show ?thesis
    using assms
    by (cases e)
       (simp_all add: listings_fetchGroups_prototype listings_onSubscriptionUpdated_prototype)
qed

lemma run_listings_prototype:
  "k \<in> set object_prototype \<Longrightarrow> listings k (run es s) = listings k s"
  by (induction es arbitrary: s) (simp_all add: run_def step_listings_prototype del: step.simps)

lemma listings_prototype:
  assumes "reachable s" "k \<in> set object_prototype"
  shows "listings k s = 0"
  using assms
proof (induction rule: reachable.induct)
  case (reachable_construct lg subs)
  then show ?case
    by (simp add: construct_def listings_onSubscriptionUpdated_prototype) (simp add: listings_def)
next
  case (reachable_step s e)
  then show ?case by (simp add: step_listings_prototype)
qed

lemma fetchGroups_current [simp]: "current (snd (fetchGroups s)) = current s"
  by (simp add: fetchGroups_def lookupCredentials_def split_beta split: option.splits)

lemma onSubscriptionUpdated_current [simp]: "current (onSubscriptionUpdated s) = current s"
  by (simp add: onSubscriptionUpdated_def lookupCredentials_def Let_def split_beta
        split: option.splits)

lemma step_current:
  assumes "current (step e s) \<noteq> current s"
  shows "\<exists>p g. e = ListingSettles p (Succeeds g)"
proof (cases e)
  case (ListingSettles p oc)
  then show ?thesis
    using assms by (cases oc) (simp_all add: settle_listing_current_Fails)
qed (use assms in simp_all)

text \<open>
  C6.  When the listing of the pending refresh for \<open>k\<close> fails, its entry of \<open>updates\<close> is
  deleted and nothing else in \<open>updates\<close> or \<open>current\<close> changes; the next call of
  \<open>updateGroups\<close> for \<open>k\<close> then invokes the remote listing anew.  In general \<open>current\<close> changes
  only when a listing succeeds.
\<close>

theorem failed_refresh_frame:
  assumes "reachable s" and "updates s k = Some u"
  shows "updates (step (ListingSettles u (Fails err)) s) = (updates s)(k := None) \<and>
         current (step (ListingSettles u (Fails err)) s) = current s \<and>
         (sub_id sub = k \<longrightarrow>
            listings k (snd (updateGroups creds sub (step (ListingSettles u (Fails err)) s))) =
              listings k (step (ListingSettles u (Fails err)) s) + 1 \<and>
            updates (snd (updateGroups creds sub (step (ListingSettles u (Fails err)) s))) k =
              Some (length (promises (step (ListingSettles u (Fails err)) s)))) \<and>
         (\<forall>e. current (step e s) \<noteq> current s \<longrightarrow> (\<exists>p g. e = ListingSettles p (Succeeds g)))"
proof -
  let ?s' = "step (ListingSettles u (Fails err)) s"
  have inv: "cache_inv s" using assms(1) by (rule reachable_inv)
  then have "updates_ok s" by (simp add: cache_inv_def)
  from updates_okD [OF this assms(2)] obtain c sub' where ul: "u < length (promises s)"
    and at: "promises s ! u = (LoadGroups c sub', Pending)" and k: "sub_id sub' = k"
    by (auto simp: prod_eq_iff)
  have 1: "updates ?s' = (updates s)(k := None)"
    using settle_listing_updates [OF inv ul at] k by simp
  have 2: "current ?s' = current s"
    by (simp add: settle_listing_current_Fails)
  have np: "k \<notin> set object_prototype"
    using inv assms(2) by (rule updates_own_key)
  have pn: "property (updates ?s') k = None"
    using 1 np by (simp add: property_None_iff)
  have 3: "listings k (snd (updateGroups creds sub ?s')) = listings k ?s' + 1"
    "updates (snd (updateGroups creds sub ?s')) k = Some (length (promises ?s'))"
    if "sub_id sub = k"
    using that pn by (simp_all add: listings_updateGroups updateGroups_updates_property)
  from 1 2 3 step_current [of _ s] show ?thesis by blast
qed

theorem failed_refresh_frame_witness:
  "updates (step (ListingSettles 0 (Fails (ListingError ''offline''))) cache_started) =
     (updates cache_started)(''sub-a'' := None) \<and>
   current (step (ListingSettles 0 (Fails (ListingError ''offline''))) cache_started) =
     current cache_started \<and>
   listings ''sub-a'' (snd (updateGroups creds_A sub_A
       (step (ListingSettles 0 (Fails (ListingError ''offline''))) cache_started))) =
     listings ''sub-a'' (step (ListingSettles 0 (Fails (ListingError ''offline''))) cache_started) + 1"
proof -
  have r: "reachable cache_started"
    unfolding cache_started_def by (intro reachable.intros)
  have u: "updates cache_started ''sub-a'' = Some 0" by code_simp
  have k: "sub_id sub_A = ''sub-a''" by (simp add: sub_A_def)
  from failed_refresh_frame [OF r u, of "ListingError ''offline''" sub_A creds_A] k
  show ?thesis by simp
qed

section \<open>The promise returned by \<open>fetchGroups\<close>\<close>

lemma synced_following: "synced a f ps \<Longrightarrow> following a f ps"
  by (auto simp: synced_def following_def)

lemma adopt_cases:
  "adopt ps q = (if settled (pstate_of ps q) then pstate_of ps q else Follows q)"
  by (simp add: adopt_def settled_def split: pstate.splits)

lemma following_propagate:
  assumes "following a f ps"
  shows "synced a f (propagate ps)"
proof -
  from assms have lens: "f < length ps" "a < f" and a: "snd (ps ! a) \<noteq> Pending"
    and f: "snd (ps ! f) = Follows a \<or> (settled (snd (ps ! a)) \<and> snd (ps ! f) = snd (ps ! a))"
    by (simp_all add: following_def)
  have Pa: "snd (propagate ps ! a) \<noteq> Pending"
    using a lens propagate_Pending [of a ps] by auto
  from f have "snd (propagate ps ! f) =
      (if settled (snd (propagate ps ! a)) then snd (propagate ps ! a) else Follows a)"
  proof
    assume "snd (ps ! f) = Follows a"
    then have "propagate ps ! f = (fst (ps ! f), adopt (take f (propagate ps)) a)"
      using lens by (simp add: propagate_nth react_def)
    then show ?thesis
      using lens by (simp add: adopt_cases pstate_of_take_propagate)
  next
    assume s: "settled (snd (ps ! a)) \<and> snd (ps ! f) = snd (ps ! a)"
    then have "propagate ps ! a = ps ! a" "propagate ps ! f = ps ! f"
      using lens by (simp_all add: propagate_settled)
    then show ?thesis using s by simp
  qed
  then show ?thesis using lens Pa by (simp add: synced_def)
qed

lemma following_append: "following a f ps \<Longrightarrow> following a f (ps @ xs)"
  by (simp add: following_def nth_append)

lemma following_update:
  assumes "following a f ps" "snd (ps ! i) = Pending"
  shows "following a f (ps[i := x])"
proof -
  have "i \<noteq> a" "i \<noteq> f"
    using assms by (auto simp: following_def settled_def)
  then show ?thesis using assms(1) by (simp add: following_def)
qed

lemma synced_extends_drain:
  assumes "synced a f (promises s)" "extends s s'"
  shows "synced a f (promises (drain s'))"
proof -
  from assms(2) obtain xs where "promises s' = promises s @ xs" by (auto simp: extends_def)
  then show ?thesis
    using assms(1) by (simp add: following_propagate following_append synced_following)
qed

lemma synced_settle_listing:
  assumes "synced a f (promises s)"
  shows "synced a f (promises (settle_listing p oc s))"
proof (cases "p < length (promises s) \<and> is_load (fst (promises s ! p)) \<and>
              snd (promises s ! p) = Pending")
  case False
  then show ?thesis using assms by (simp add: settle_listing_idle)
next
  case True
  then show ?thesis
    using assms
    by (simp add: settle_listing_promises_other following_propagate following_update
          synced_following)
qed

lemma synced_resolve_with_drain:
  assumes "synced a f (promises s)"
  shows "synced a f (promises (drain (resolve_with t v s)))"
proof -
  have "following a f (promises (resolve_with t v s))"
    using assms by (auto simp: resolve_with_def following_update synced_following)
  then show ?thesis by (simp add: following_propagate)
qed

lemma synced_fire: "synced a f (promises s) \<Longrightarrow> synced a f (promises (fire due s))"
proof (induction due s rule: fire.induct)
  case (1 s)
  then show ?case by simp
next
  case (2 dl t v due s)
  from synced_resolve_with_drain [OF "2.prems", of t v] "2.IH" show ?case by simp
qed

lemma synced_step:
  assumes "synced a f (promises s)"
  shows "synced a f (promises (step e s))"
proof (cases e)
  case Fetch
  then show ?thesis using synced_extends_drain [OF assms fetchGroups_extends] by simp
next
  case (SubscriptionsUpdated subs)
  have "extends s (s\<lparr>subscriptions := subs\<rparr>)" by (simp add: extends_def)
  from synced_extends_drain [OF assms extends_trans [OF this onSubscriptionUpdated_extends]]
  show ?thesis using SubscriptionsUpdated by simp
next
  case (LoginsChanged lg)
  then show ?thesis using assms by simp
next
  case (ListingSettles p oc)
  then show ?thesis using assms by (simp add: synced_settle_listing)
next
  case (Elapse d)
  have "synced a f (promises (s\<lparr>now := now s + d,
          timers := filter (\<lambda>(dl, t, v). \<not> dl \<le> now s + d) (timers s)\<rparr>))"
    using assms by simp
  then have "synced a f (promises (elapse d s))"
    unfolding elapse_promises by (rule synced_fire)
  then show ?thesis using Elapse by simp
qed

lemma synced_run: "synced a f (promises s) \<Longrightarrow> synced a f (promises (run es s))"
  unfolding run_def by (induction es arbitrary: s) (simp_all add: synced_step)

lemma synced_outcome:
  assumes "synced a f (promises s)"
  shows "outcome_after es s f =
           (if settled (outcome_after es s a) then outcome_after es s a else Follows a)"
proof -
  from synced_run [OF assms, of es]
  have "synced a f (promises (run es s))" .
  then show ?thesis by (simp add: synced_def outcome_after_def pstate_of_def)
qed

text \<open>
  \<open>updateGroups\<close> returns the last promise it created, which is resolved or rejected when the
  call returns.
\<close>

lemma updateGroups_result:
  "fst (updateGroups c sub s) < length (promises (snd (updateGroups c sub s))) \<and>
   snd (promises (snd (updateGroups c sub s)) ! fst (updateGroups c sub s)) \<noteq> Pending"
  by (simp add: updateGroups_unfold nth_append split: option.splits jsval.splits)

text \<open>A call of \<open>fetchGroups\<close> that gets as far as \<open>updateGroups\<close>.\<close>

lemma fetchGroups_delegates:
  assumes "defaultSubscription s = Some sub" "map_of (logins s) (tenantId sub) = Some creds"
  shows "fetchGroups s =
           new_promise AsyncP
             (Follows (fst (updateGroups creds sub (snd (lookupCredentials (tenantId sub) s)))))
             (snd (updateGroups creds sub (snd (lookupCredentials (tenantId sub) s))))"
  using assms by (simp add: fetchGroups_def lookupCredentials_def split_beta)

lemma fetchGroups_synced:
  assumes "defaultSubscription s = Some sub" "map_of (logins s) (tenantId sub) = Some creds"
  shows "synced (fst (updateGroups creds sub (snd (lookupCredentials (tenantId sub) s))))
           (fst (fetchGroups s)) (promises (step Fetch s))"
proof -
  let ?s0 = "snd (lookupCredentials (tenantId sub) s)"
  let ?a = "fst (updateGroups creds sub ?s0)"
  let ?s1 = "snd (updateGroups creds sub ?s0)"
  from updateGroups_result [of creds sub ?s0]
  have al: "?a < length (promises ?s1)" and at: "snd (promises ?s1 ! ?a) \<noteq> Pending"
    by simp_all
  have "following ?a (length (promises ?s1)) (promises ?s1 @ [(AsyncP, Follows ?a)])"
    using al at by (simp add: following_def nth_append)
  then have "synced ?a (length (promises ?s1)) (propagate (promises ?s1 @ [(AsyncP, Follows ?a)]))"
    by (rule following_propagate)
  then show ?thesis
    by (simp add: fetchGroups_delegates [OF assms])
qed

lemma update_of_lookupCredentials [simp]:
  "update_of sub (snd (lookupCredentials tn s)) = update_of sub s"
  by (simp add: update_of_def lookupCredentials_def split: option.splits)

lemma lookupCredentials_fields [simp]:
  "current (snd (lookupCredentials tn s)) = current s"
  "promises (snd (lookupCredentials tn s)) = promises s"
  "now (snd (lookupCredentials tn s)) = now s"
  "timers (snd (lookupCredentials tn s)) = timers s"
  by (simp_all add: lookupCredentials_def)

lemma fetchGroups_racing:
  assumes inv: "cache_inv s"
    and d: "defaultSubscription s = Some sub" "map_of (logins s) (tenantId sub) = Some creds"
    and cur: "current s (sub_id sub) = Some cur" and g0: "snd (promises s ! cur) = Fulfilled g0"
  shows "\<exists>t c r. racing (update_of sub s) cur g0 (now s + 500) t c r
           (fst (updateGroups creds sub (snd (lookupCredentials (tenantId sub) s))))
           (step Fetch s)"
proof -
  let ?s0 = "snd (lookupCredentials (tenantId sub) s)"
  let ?a = "fst (updateGroups creds sub ?s0)"
  let ?s1 = "snd (updateGroups creds sub ?s0)"
  have inv0: "cache_inv ?s0" using inv by (simp add: lookupCredentials_inv)
  have cur0: "current ?s0 (sub_id sub) = Some cur" using cur by simp
  have g00: "snd (promises ?s0 ! cur) = Fulfilled g0" using g0 by simp
  from updateGroups_racing [OF inv0 cur0 g00, of creds] obtain t c r
    where "racing (update_of sub s) cur g0 (now s + 500) t c r ?a ?s1" by auto
  then have "racing (update_of sub s) cur g0 (now s + 500) t c r ?a
               (snd (new_promise AsyncP (Follows ?a) ?s1))"
    using new_promise_extends by (rule racing_extends)
  then have "racing (update_of sub s) cur g0 (now s + 500) t c r ?a (step Fetch s)"
    by (simp add: fetchGroups_delegates [OF d] racing_drain)
  then show ?thesis by blast
qed

lemma fetchGroups_waiting:
  assumes inv: "cache_inv s"
    and d: "defaultSubscription s = Some sub" "map_of (logins s) (tenantId sub) = Some creds"
    and np: "sub_id sub \<notin> set object_prototype"
    and cur: "current s (sub_id sub) = None"
  shows "waiting (update_of sub s)
           (fst (updateGroups creds sub (snd (lookupCredentials (tenantId sub) s))))
           (promises (step Fetch s))"
proof -
  let ?s0 = "snd (lookupCredentials (tenantId sub) s)"
  let ?a = "fst (updateGroups creds sub ?s0)"
  let ?s1 = "snd (updateGroups creds sub ?s0)"
  have inv0: "cache_inv ?s0" using inv by (simp add: lookupCredentials_inv)
  have cur0: "current ?s0 (sub_id sub) = None" using cur by simp
  from updateGroups_waiting [OF inv0 np cur0, of creds]
  have "waiting (update_of sub s) ?a (promises ?s1)" by simp
  then have "waiting (update_of sub s) ?a (promises (snd (new_promise AsyncP (Follows ?a) ?s1)))"
    using new_promise_extends by (rule waiting_extends)
  then show ?thesis
    by (simp add: fetchGroups_delegates [OF d] waiting_propagate)
qed

text \<open>
  How a call that found a cached result ends, in terms of the events after it: fulfilled
  with the new groups if the listing succeeds before the timer is due, fulfilled with the
  cached groups if the listing fails or the timer comes due first, not settled before.
\<close>

lemma racing_outcomes:
  assumes inv: "cache_inv s" and rc: "racing u cur g0 dl t c r a s"
    and es: "\<forall>e \<in> set es. \<not> settles u e"
  shows "(dl \<le> now s + elapsed es \<longrightarrow> outcome_after (es @ es') s a = Fulfilled g0) \<and>
         (now s + elapsed es < dl \<longrightarrow> \<not> settled (outcome_after es s a)) \<and>
         (now s + elapsed es < dl \<longrightarrow>
            outcome_after (es @ ListingSettles u (Succeeds g) # es') s a = Fulfilled g) \<and>
         outcome_after (es @ ListingSettles u (Fails err) # es') s a = Fulfilled g0 \<and>
         outcome_after es'' s a \<noteq> Rejected err"
proof (intro conjI impI)
  assume "dl \<le> now s + elapsed es"
  from racing_run_timer [OF inv rc es this]
  show "outcome_after (es @ es') s a = Fulfilled g0" by (simp add: outcome_after_def)
next
  assume "now s + elapsed es < dl"
  from racing_run_before [OF inv rc es this]
  show "\<not> settled (outcome_after es s a)"
    by (simp add: outcome_after_def racing_def race_store_def pstate_of_nth settled_def)
next
  assume "now s + elapsed es < dl"
  from racing_run_settle [OF inv rc es this, of "Succeeds g" es']
  show "outcome_after (es @ ListingSettles u (Succeeds g) # es') s a = Fulfilled g"
    by (simp add: outcome_after_def)
next
  show "outcome_after (es @ ListingSettles u (Fails err) # es') s a = Fulfilled g0"
  proof (cases "now s + elapsed es < dl")
    case True
    from racing_run_settle [OF inv rc es True, of "Fails err" es']
    show ?thesis by (simp add: outcome_after_def)
  next
    case False
    then have "dl \<le> now s + elapsed es" by simp
    from racing_run_timer [OF inv rc es this]
    show ?thesis by (simp add: outcome_after_def)
  qed
next
  from racing_never_rejected [OF inv rc, of es'']
  show "outcome_after es'' s a \<noteq> Rejected err"
    by (auto simp: outcome_after_def pstate_of_nth)
qed

text \<open>How a call that found no cached result ends.\<close>

lemma waiting_outcomes:
  assumes inv: "cache_inv s" and w: "waiting u a (promises s)"
    and es: "\<forall>e \<in> set es. \<not> settles u e"
  shows "outcome_after es s a = Follows u \<and>
         outcome_after (es @ ListingSettles u oc # es') s a = settled_as oc"
proof
  from waiting_run [OF inv w es]
  show "outcome_after es s a = Follows u"
    by (simp add: outcome_after_def waiting_def pstate_of_nth)
  from waiting_run_settle [OF inv w es]
  show "outcome_after (es @ ListingSettles u oc # es') s a = settled_as oc"
    by (simp add: outcome_after_def)
qed

lemma settled_simps [simp]:
  "settled (Fulfilled g)" "settled (FulfilledMember m)" "settled (Rejected e)"
  "\<not> settled Pending" "\<not> settled (Follows q)"
  by (simp_all add: settled_def)

lemma settled_settled_as [simp]: "settled (settled_as oc)"
  by (cases oc) simp_all

section \<open>The refresh coordinator\<close>

lemma cached_fulfilled:
  assumes "cache_inv s" "current s k = Some cur"
  obtains g0 where "pstate_of (promises s) cur = Fulfilled g0"
    "snd (promises s ! cur) = Fulfilled g0"
  using assms current_okD [of s k cur] by (auto simp: cache_inv_def pstate_of_nth)

text \<open>A call of \<open>updateGroups\<close> that found the cached result \<open>cur\<close>, from the state it leaves.\<close>

lemma call_cached:
  assumes inv: "cache_inv s" and cur: "current s (sub_id sub) = Some cur"
    and g0: "snd (promises s ! cur) = Fulfilled g0"
    and es: "\<forall>e \<in> set es. \<not> settles (update_of sub s) e"
  shows "(500 \<le> elapsed es \<longrightarrow>
            outcome_after (es @ es') (snd (updateGroups creds sub s))
              (fst (updateGroups creds sub s)) = Fulfilled g0) \<and>
         (elapsed es < 500 \<longrightarrow>
            \<not> settled (outcome_after es (snd (updateGroups creds sub s))
              (fst (updateGroups creds sub s)))) \<and>
         (elapsed es < 500 \<longrightarrow>
            outcome_after (es @ ListingSettles (update_of sub s) (Succeeds g) # es')
              (snd (updateGroups creds sub s)) (fst (updateGroups creds sub s)) = Fulfilled g) \<and>
         outcome_after (es @ ListingSettles (update_of sub s) (Fails err) # es')
           (snd (updateGroups creds sub s)) (fst (updateGroups creds sub s)) = Fulfilled g0 \<and>
         outcome_after es'' (snd (updateGroups creds sub s)) (fst (updateGroups creds sub s))
           \<noteq> Rejected err"
proof -
  let ?s1 = "snd (updateGroups creds sub s)"
  from updateGroups_racing [OF inv cur g0, of creds] obtain t c r
    where rc: "racing (update_of sub s) cur g0 (now s + 500) t c r
                 (fst (updateGroups creds sub s)) ?s1"
    by blast
  have inv1: "cache_inv ?s1" using inv by (rule updateGroups_inv)
  from racing_outcomes [OF inv1 rc es, of es' g err es''] show ?thesis by simp
qed

text \<open>The same for the promise returned by the call of \<open>fetchGroups\<close> around it.\<close>

lemma fetch_cached:
  assumes inv: "cache_inv s"
    and d: "defaultSubscription s = Some sub" "map_of (logins s) (tenantId sub) = Some creds"
    and cur: "current s (sub_id sub) = Some cur"
    and g0: "snd (promises s ! cur) = Fulfilled g0"
    and es: "\<forall>e \<in> set es. \<not> settles (update_of sub s) e"
  shows "(500 \<le> elapsed es \<longrightarrow>
            outcome_after (es @ es') (step Fetch s) (fst (fetchGroups s)) = Fulfilled g0) \<and>
         (elapsed es < 500 \<longrightarrow>
            \<not> settled (outcome_after es (step Fetch s) (fst (fetchGroups s)))) \<and>
         (elapsed es < 500 \<longrightarrow>
            outcome_after (es @ ListingSettles (update_of sub s) (Succeeds g) # es')
              (step Fetch s) (fst (fetchGroups s)) = Fulfilled g) \<and>
         outcome_after (es @ ListingSettles (update_of sub s) (Fails err) # es')
           (step Fetch s) (fst (fetchGroups s)) = Fulfilled g0 \<and>
         outcome_after es'' (step Fetch s) (fst (fetchGroups s)) \<noteq> Rejected err"
proof -
  let ?a = "fst (updateGroups creds sub (snd (lookupCredentials (tenantId sub) s)))"
  let ?f = "fst (fetchGroups s)"
  let ?s' = "step Fetch s"
  from fetchGroups_racing [OF inv d cur g0] obtain t c r
    where rc: "racing (update_of sub s) cur g0 (now s + 500) t c r ?a ?s'"
    by blast
  have inv': "cache_inv ?s'" using inv by (rule step_inv)
  have nw: "now ?s' = now s" by simp
  have sy: "outcome_after xs ?s' ?f =
              (if settled (outcome_after xs ?s' ?a) then outcome_after xs ?s' ?a else Follows ?a)"
    for xs
    using fetchGroups_synced [OF d] by (rule synced_outcome)
  from racing_outcomes [OF inv' rc es, of es' g err es'']
  have a: "500 \<le> elapsed es \<longrightarrow> outcome_after (es @ es') ?s' ?a = Fulfilled g0"
    "elapsed es < 500 \<longrightarrow> \<not> settled (outcome_after es ?s' ?a)"
    "elapsed es < 500 \<longrightarrow>
       outcome_after (es @ ListingSettles (update_of sub s) (Succeeds g) # es') ?s' ?a = Fulfilled g"
    "outcome_after (es @ ListingSettles (update_of sub s) (Fails err) # es') ?s' ?a = Fulfilled g0"
    "outcome_after es'' ?s' ?a \<noteq> Rejected err"
    using nw by simp_all
  have 1: "500 \<le> elapsed es \<longrightarrow> outcome_after (es @ es') ?s' ?f = Fulfilled g0"
    using a(1) by (simp add: sy del: step.simps)
  have 2: "elapsed es < 500 \<longrightarrow> \<not> settled (outcome_after es ?s' ?f)"
    using a(2) by (simp add: sy del: step.simps)
  have 3: "elapsed es < 500 \<longrightarrow>
       outcome_after (es @ ListingSettles (update_of sub s) (Succeeds g) # es') ?s' ?f = Fulfilled g"
    using a(3) by (simp add: sy del: step.simps)
  have 4: "outcome_after (es @ ListingSettles (update_of sub s) (Fails err) # es') ?s' ?f =
             Fulfilled g0"
    using a(4) by (simp add: sy del: step.simps)
  have 5: "outcome_after es'' ?s' ?f \<noteq> Rejected err"
    using a(5) by (simp add: sy del: step.simps)
  from 1 2 3 4 5 show ?thesis by blast
qed

text \<open>A call of \<open>updateGroups\<close> that found no cached result, and \<open>fetchGroups\<close> around it.\<close>

lemma call_uncached:
  assumes inv: "cache_inv s" and np: "sub_id sub \<notin> set object_prototype"
    and cur: "current s (sub_id sub) = None"
    and es: "\<forall>e \<in> set es. \<not> settles (update_of sub s) e"
  shows "outcome_after es (snd (updateGroups creds sub s)) (fst (updateGroups creds sub s)) =
           Follows (update_of sub s) \<and>
         outcome_after (es @ ListingSettles (update_of sub s) oc # es')
           (snd (updateGroups creds sub s)) (fst (updateGroups creds sub s)) = settled_as oc"
proof -
  have "waiting (update_of sub s) (fst (updateGroups creds sub s))
          (promises (snd (updateGroups creds sub s)))"
    using inv np cur by (rule updateGroups_waiting)
  moreover have "cache_inv (snd (updateGroups creds sub s))" using inv by (rule updateGroups_inv)
  ultimately show ?thesis using es waiting_outcomes by blast
qed

lemma fetch_uncached:
  assumes inv: "cache_inv s"
    and d: "defaultSubscription s = Some sub" "map_of (logins s) (tenantId sub) = Some creds"
    and np: "sub_id sub \<notin> set object_prototype"
    and cur: "current s (sub_id sub) = None"
    and es: "\<forall>e \<in> set es. \<not> settles (update_of sub s) e"
  shows "\<not> settled (outcome_after es (step Fetch s) (fst (fetchGroups s))) \<and>
         outcome_after (es @ ListingSettles (update_of sub s) oc # es')
           (step Fetch s) (fst (fetchGroups s)) = settled_as oc"
proof -
  let ?a = "fst (updateGroups creds sub (snd (lookupCredentials (tenantId sub) s)))"
  let ?f = "fst (fetchGroups s)"
  let ?s' = "step Fetch s"
  have w: "waiting (update_of sub s) ?a (promises ?s')"
    using inv d np cur by (rule fetchGroups_waiting)
  have inv': "cache_inv ?s'" using inv by (rule step_inv)
  have sy: "outcome_after xs ?s' ?f =
              (if settled (outcome_after xs ?s' ?a) then outcome_after xs ?s' ?a else Follows ?a)"
    for xs
    using fetchGroups_synced [OF d] by (rule synced_outcome)
  from waiting_outcomes [OF inv' w es, of oc es']
  show ?thesis by (simp add: sy del: step.simps)
qed

text \<open>
  C3.  A call of \<open>updateGroups\<close> finds a cached result, and the listing it waits for does not
  settle.  While less than 500ms have passed the returned promise is not settled; once 500ms
  have passed it is fulfilled with the cached groups, and stays so whatever happens later.
  The same holds for the promise that \<open>fetchGroups\<close> returns when it makes this call.
\<close>

theorem updateGroups_stale_at_deadline:
  assumes "reachable s" and "current s (sub_id sub) = Some cur"
    and "\<forall>e \<in> set es. \<not> settles (update_of sub s) e"
  shows "\<exists>g0. pstate_of (promises s) cur = Fulfilled g0 \<and>
           (500 \<le> elapsed es \<longrightarrow>
              outcome_after (es @ es') (snd (updateGroups creds sub s))
                (fst (updateGroups creds sub s)) = Fulfilled g0) \<and>
           (elapsed es < 500 \<longrightarrow>
              \<not> settled (outcome_after es (snd (updateGroups creds sub s))
                (fst (updateGroups creds sub s)))) \<and>
           (defaultSubscription s = Some sub \<and> map_of (logins s) (tenantId sub) = Some creds \<longrightarrow>
              (500 \<le> elapsed es \<longrightarrow>
                 outcome_after (es @ es') (step Fetch s) (fst (fetchGroups s)) = Fulfilled g0) \<and>
              (elapsed es < 500 \<longrightarrow>
                 \<not> settled (outcome_after es (step Fetch s) (fst (fetchGroups s)))))"
proof -
  have inv: "cache_inv s" using assms(1) by (rule reachable_inv)
  from cached_fulfilled [OF inv assms(2)] obtain g0
    where p: "pstate_of (promises s) cur = Fulfilled g0"
      and g0: "snd (promises s ! cur) = Fulfilled g0" .
  from call_cached [OF inv assms(2) g0 assms(3), of es' creds]
  have 1: "500 \<le> elapsed es \<longrightarrow>
       outcome_after (es @ es') (snd (updateGroups creds sub s))
         (fst (updateGroups creds sub s)) = Fulfilled g0"
    and 2: "elapsed es < 500 \<longrightarrow>
       \<not> settled (outcome_after es (snd (updateGroups creds sub s))
         (fst (updateGroups creds sub s)))"
    by blast+
  have 3: "(500 \<le> elapsed es \<longrightarrow>
          outcome_after (es @ es') (step Fetch s) (fst (fetchGroups s)) = Fulfilled g0) \<and>
       (elapsed es < 500 \<longrightarrow>
          \<not> settled (outcome_after es (step Fetch s) (fst (fetchGroups s))))"
    if "defaultSubscription s = Some sub" "map_of (logins s) (tenantId sub) = Some creds"
    using fetch_cached [OF inv that assms(2) g0 assms(3), of es'] by blast
  from p 1 2 3 show ?thesis by blast
qed

theorem updateGroups_stale_at_deadline_witness:
  "outcome_after ([Elapse 200, Fetch, Elapse 300] @ [ListingSettles 2 (Succeeds groups_new)])
      (snd (updateGroups creds_A sub_A cache_loaded))
      (fst (updateGroups creds_A sub_A cache_loaded)) = Fulfilled groups_old \<and>
   \<not> settled (outcome_after [Elapse 200, Fetch, Elapse 299]
      (snd (updateGroups creds_A sub_A cache_loaded))
      (fst (updateGroups creds_A sub_A cache_loaded))) \<and>
   outcome_after ([Elapse 200, Fetch, Elapse 300] @ [ListingSettles 2 (Succeeds groups_new)])
      (step Fetch cache_loaded) (fst (fetchGroups cache_loaded)) = Fulfilled groups_old \<and>
   \<not> settled (outcome_after [Elapse 200, Fetch, Elapse 299]
      (step Fetch cache_loaded) (fst (fetchGroups cache_loaded)))"
proof -
  have r: "reachable cache_loaded"
    unfolding cache_loaded_def cache_started_def by (intro reachable.intros)
  have c: "current cache_loaded (sub_id sub_A) = Some 0" by code_simp
  have g: "pstate_of (promises cache_loaded) 0 = Fulfilled groups_old" by code_simp
  have d: "defaultSubscription cache_loaded = Some sub_A \<and>
           map_of (logins cache_loaded) (tenantId sub_A) = Some creds_A" by code_simp
  have e1: "\<forall>e \<in> set [Elapse 200, Fetch, Elapse 300]. \<not> settles (update_of sub_A cache_loaded) e"
    by simp
  have e2: "\<forall>e \<in> set [Elapse 200, Fetch, Elapse 299]. \<not> settles (update_of sub_A cache_loaded) e"
    by simp
  have t1: "500 \<le> elapsed [Elapse 200, Fetch, Elapse 300]" by simp
  have t2: "elapsed [Elapse 200, Fetch, Elapse 299] < 500" by simp
  from updateGroups_stale_at_deadline [OF r c e1,
      of "[ListingSettles 2 (Succeeds groups_new)]" creds_A] g t1 d
  have 1: "outcome_after ([Elapse 200, Fetch, Elapse 300] @ [ListingSettles 2 (Succeeds groups_new)])
      (snd (updateGroups creds_A sub_A cache_loaded))
      (fst (updateGroups creds_A sub_A cache_loaded)) = Fulfilled groups_old"
    and 3: "outcome_after ([Elapse 200, Fetch, Elapse 300] @ [ListingSettles 2 (Succeeds groups_new)])
      (step Fetch cache_loaded) (fst (fetchGroups cache_loaded)) = Fulfilled groups_old"
    by auto
  from updateGroups_stale_at_deadline [OF r c e2, of "[]" creds_A] t2 d
  have 2: "\<not> settled (outcome_after [Elapse 200, Fetch, Elapse 299]
      (snd (updateGroups creds_A sub_A cache_loaded))
      (fst (updateGroups creds_A sub_A cache_loaded)))"
    and 4: "\<not> settled (outcome_after [Elapse 200, Fetch, Elapse 299]
      (step Fetch cache_loaded) (fst (fetchGroups cache_loaded)))"
    by auto
  from 1 2 3 4 show ?thesis by blast
qed

text \<open>
  C4.  A call of \<open>updateGroups\<close> finds a cached result, and the listing it waits for succeeds
  before 500ms have passed: the returned promise is fulfilled with the new groups, and so is
  the promise that \<open>fetchGroups\<close> returns when it makes this call.
\<close>

theorem updateGroups_fresh_before_deadline:
  assumes "reachable s" and "current s (sub_id sub) = Some cur"
    and "\<forall>e \<in> set es. \<not> settles (update_of sub s) e"
    and "elapsed es < 500"
  shows "outcome_after (es @ ListingSettles (update_of sub s) (Succeeds g) # es')
           (snd (updateGroups creds sub s)) (fst (updateGroups creds sub s)) = Fulfilled g \<and>
         (defaultSubscription s = Some sub \<and> map_of (logins s) (tenantId sub) = Some creds \<longrightarrow>
            outcome_after (es @ ListingSettles (update_of sub s) (Succeeds g) # es')
              (step Fetch s) (fst (fetchGroups s)) = Fulfilled g)"
proof -
  have inv: "cache_inv s" using assms(1) by (rule reachable_inv)
  from cached_fulfilled [OF inv assms(2)] obtain g0
    where g0: "snd (promises s ! cur) = Fulfilled g0" .
  from call_cached [OF inv assms(2) g0 assms(3), of es' creds g] assms(4)
  have 1: "outcome_after (es @ ListingSettles (update_of sub s) (Succeeds g) # es')
           (snd (updateGroups creds sub s)) (fst (updateGroups creds sub s)) = Fulfilled g"
    by blast
  have 2: "outcome_after (es @ ListingSettles (update_of sub s) (Succeeds g) # es')
              (step Fetch s) (fst (fetchGroups s)) = Fulfilled g"
    if "defaultSubscription s = Some sub" "map_of (logins s) (tenantId sub) = Some creds"
    using fetch_cached [OF inv that assms(2) g0 assms(3), of es' g] assms(4) by blast
  from 1 2 show ?thesis by blast
qed

theorem updateGroups_fresh_before_deadline_witness:
  "groups_new \<noteq> groups_old \<and>
   outcome_after ([Elapse 200, Fetch, Elapse 299] @
        ListingSettles (update_of sub_A cache_loaded) (Succeeds groups_new) # [Elapse 5000])
      (snd (updateGroups creds_A sub_A cache_loaded))
      (fst (updateGroups creds_A sub_A cache_loaded)) = Fulfilled groups_new \<and>
   outcome_after ([Elapse 200, Fetch, Elapse 299] @
        ListingSettles (update_of sub_A cache_loaded) (Succeeds groups_new) # [Elapse 5000])
      (step Fetch cache_loaded) (fst (fetchGroups cache_loaded)) = Fulfilled groups_new"
proof -
  have r: "reachable cache_loaded"
    unfolding cache_loaded_def cache_started_def by (intro reachable.intros)
  have c: "current cache_loaded (sub_id sub_A) = Some 0" by code_simp
  have d: "defaultSubscription cache_loaded = Some sub_A \<and>
           map_of (logins cache_loaded) (tenantId sub_A) = Some creds_A" by code_simp
  have e: "\<forall>e \<in> set [Elapse 200, Fetch, Elapse 299]. \<not> settles (update_of sub_A cache_loaded) e"
    by simp
  have t: "elapsed [Elapse 200, Fetch, Elapse 299] < 500" by simp
  have n: "groups_new \<noteq> groups_old" by (simp add: groups_new_def)
  from n d updateGroups_fresh_before_deadline [OF r c e t, of groups_new "[Elapse 5000]" creds_A]
  show ?thesis by blast
qed

text \<open>
  C2.  The listing a call of \<open>updateGroups\<close> waits for fails.  If the call found no cached
  result, the returned promise is rejected with the error of the listing; if it found one,
  the returned promise is fulfilled with the cached groups.  So the failure reaches the
  caller exactly when there is no cached result.  The promise that \<open>fetchGroups\<close> returns when
  it makes this call ends the same way.  For an id that is the name of a member of
  \<open>Object.prototype\<close> there is no listing that could fail: none is ever invoked for it.
\<close>

theorem refresh_failure_propagation:
  assumes "reachable s"
    and "\<forall>e \<in> set es. \<not> settles (update_of sub s) e"
  shows "(current s (sub_id sub) = None \<and> sub_id sub \<notin> set object_prototype \<longrightarrow>
            outcome_after (es @ ListingSettles (update_of sub s) (Fails err) # es')
              (snd (updateGroups creds sub s)) (fst (updateGroups creds sub s)) = Rejected err \<and>
            (defaultSubscription s = Some sub \<and> map_of (logins s) (tenantId sub) = Some creds \<longrightarrow>
               outcome_after (es @ ListingSettles (update_of sub s) (Fails err) # es')
                 (step Fetch s) (fst (fetchGroups s)) = Rejected err)) \<and>
         (\<forall>cur. current s (sub_id sub) = Some cur \<longrightarrow>
            (\<exists>g0. pstate_of (promises s) cur = Fulfilled g0 \<and>
               outcome_after (es @ ListingSettles (update_of sub s) (Fails err) # es')
                 (snd (updateGroups creds sub s)) (fst (updateGroups creds sub s)) = Fulfilled g0 \<and>
               (defaultSubscription s = Some sub \<and>
                  map_of (logins s) (tenantId sub) = Some creds \<longrightarrow>
                  outcome_after (es @ ListingSettles (update_of sub s) (Fails err) # es')
                    (step Fetch s) (fst (fetchGroups s)) = Fulfilled g0))) \<and>
         (sub_id sub \<in> set object_prototype \<longrightarrow>
            listings (sub_id sub) (run es' (snd (updateGroups creds sub s))) = 0 \<and>
            listings (sub_id sub) (run es' (step Fetch s)) = 0)"
proof -
  have inv: "cache_inv s" using assms(1) by (rule reachable_inv)
  have 1: "outcome_after (es @ ListingSettles (update_of sub s) (Fails err) # es')
              (snd (updateGroups creds sub s)) (fst (updateGroups creds sub s)) = Rejected err"
    if "current s (sub_id sub) = None" "sub_id sub \<notin> set object_prototype"
    using call_uncached [OF inv that(2,1) assms(2), of creds "Fails err" es'] by simp
  have 2: "outcome_after (es @ ListingSettles (update_of sub s) (Fails err) # es')
                 (step Fetch s) (fst (fetchGroups s)) = Rejected err"
    if "current s (sub_id sub) = None" "sub_id sub \<notin> set object_prototype"
      "defaultSubscription s = Some sub" "map_of (logins s) (tenantId sub) = Some creds"
    using fetch_uncached [OF inv that(3,4,2,1) assms(2), of "Fails err" es'] by simp
  have 3: "\<exists>g0. pstate_of (promises s) cur = Fulfilled g0 \<and>
               outcome_after (es @ ListingSettles (update_of sub s) (Fails err) # es')
                 (snd (updateGroups creds sub s)) (fst (updateGroups creds sub s)) = Fulfilled g0 \<and>
               (defaultSubscription s = Some sub \<and>
                  map_of (logins s) (tenantId sub) = Some creds \<longrightarrow>
                  outcome_after (es @ ListingSettles (update_of sub s) (Fails err) # es')
                    (step Fetch s) (fst (fetchGroups s)) = Fulfilled g0)"
    if cur: "current s (sub_id sub) = Some cur" for cur
  proof -
    from cached_fulfilled [OF inv cur] obtain g0
      where p: "pstate_of (promises s) cur = Fulfilled g0"
        and g0: "snd (promises s ! cur) = Fulfilled g0" .
    from call_cached [OF inv cur g0 assms(2), of es' creds _ err]
    have a: "outcome_after (es @ ListingSettles (update_of sub s) (Fails err) # es')
                 (snd (updateGroups creds sub s)) (fst (updateGroups creds sub s)) = Fulfilled g0"
      by blast
    have b: "outcome_after (es @ ListingSettles (update_of sub s) (Fails err) # es')
                    (step Fetch s) (fst (fetchGroups s)) = Fulfilled g0"
      if "defaultSubscription s = Some sub" "map_of (logins s) (tenantId sub) = Some creds"
      using fetch_cached [OF inv that cur g0 assms(2), of es' _ err] by blast
    from p a b show ?thesis by blast
  qed
  have 4: "listings (sub_id sub) (run es' (snd (updateGroups creds sub s))) = 0 \<and>
           listings (sub_id sub) (run es' (step Fetch s)) = 0"
    if np: "sub_id sub \<in> set object_prototype"
  proof -
    have 0: "listings (sub_id sub) s = 0" using assms(1) np by (rule listings_prototype)
    have "listings (sub_id sub) (run es' (snd (updateGroups creds sub s))) = 0"
      using 0 np by (simp add: run_listings_prototype listings_updateGroups_prototype)
    moreover have "listings (sub_id sub) (run es' (step Fetch s)) = 0"
      using 0 np by (simp add: run_listings_prototype step_listings_prototype del: step.simps)
    ultimately show ?thesis by simp
  qed
  from 1 2 3 4 show ?thesis by blast
qed

theorem refresh_failure_propagation_witness:
  "outcome_after ([Elapse 700] @ ListingSettles (update_of sub_A cache_started)
        (Fails (ListingError ''throttled'')) # [Fetch])
      (snd (updateGroups creds_A sub_A cache_started))
      (fst (updateGroups creds_A sub_A cache_started)) = Rejected (ListingError ''throttled'') \<and>
   outcome_after ([Elapse 700] @ ListingSettles (update_of sub_A cache_started)
        (Fails (ListingError ''throttled'')) # [Fetch])
      (step Fetch cache_started) (fst (fetchGroups cache_started)) =
      Rejected (ListingError ''throttled'') \<and>
   outcome_after ([Elapse 100] @ ListingSettles (update_of sub_A cache_loaded)
        (Fails (ListingError ''throttled'')) # [Fetch])
      (snd (updateGroups creds_A sub_A cache_loaded))
      (fst (updateGroups creds_A sub_A cache_loaded)) = Fulfilled groups_old \<and>
   outcome_after ([Elapse 100] @ ListingSettles (update_of sub_A cache_loaded)
        (Fails (ListingError ''throttled'')) # [Fetch])
      (step Fetch cache_loaded) (fst (fetchGroups cache_loaded)) = Fulfilled groups_old \<and>
   listings ''constructor'' (run [Fetch, Elapse 600] (step Fetch cache_proto)) = 0"
proof -
  have r1: "reachable cache_started"
    unfolding cache_started_def by (intro reachable.intros)
  have r2: "reachable cache_loaded"
    unfolding cache_loaded_def cache_started_def by (intro reachable.intros)
  have r3: "reachable cache_proto"
    unfolding cache_proto_def by (intro reachable.intros)
  have c1: "current cache_started (sub_id sub_A) = None" by code_simp
  have n1: "sub_id sub_A \<notin> set object_prototype" by code_simp
  have c2: "current cache_loaded (sub_id sub_A) = Some 0" by code_simp
  have d1: "defaultSubscription cache_started = Some sub_A \<and>
            map_of (logins cache_started) (tenantId sub_A) = Some creds_A" by code_simp
  have d2: "defaultSubscription cache_loaded = Some sub_A \<and>
            map_of (logins cache_loaded) (tenantId sub_A) = Some creds_A" by code_simp
  have g: "pstate_of (promises cache_loaded) 0 = Fulfilled groups_old" by code_simp
  have k3: "sub_id sub_proto = ''constructor''" by (simp add: sub_proto_def)
  have n3: "sub_id sub_proto \<in> set object_prototype" by code_simp
  have e1: "\<forall>e \<in> set [Elapse 700]. \<not> settles (update_of sub_A cache_started) e" by simp
  have e2: "\<forall>e \<in> set [Elapse 100]. \<not> settles (update_of sub_A cache_loaded) e" by simp
  have e3: "\<forall>e \<in> set []. \<not> settles (update_of sub_proto cache_proto) e" by simp
  from refresh_failure_propagation [OF r1 e1, of "ListingError ''throttled''" "[Fetch]" creds_A]
    c1 n1 d1
  have 1: "outcome_after ([Elapse 700] @ ListingSettles (update_of sub_A cache_started)
        (Fails (ListingError ''throttled'')) # [Fetch])
      (snd (updateGroups creds_A sub_A cache_started))
      (fst (updateGroups creds_A sub_A cache_started)) = Rejected (ListingError ''throttled'')"
    and 2: "outcome_after ([Elapse 700] @ ListingSettles (update_of sub_A cache_started)
        (Fails (ListingError ''throttled'')) # [Fetch])
      (step Fetch cache_started) (fst (fetchGroups cache_started)) =
      Rejected (ListingError ''throttled'')"
    by blast+
  from refresh_failure_propagation [OF r2 e2, of "ListingError ''throttled''" "[Fetch]" creds_A]
    c2 d2 g
  have 3: "outcome_after ([Elapse 100] @ ListingSettles (update_of sub_A cache_loaded)
        (Fails (ListingError ''throttled'')) # [Fetch])
      (snd (updateGroups creds_A sub_A cache_loaded))
      (fst (updateGroups creds_A sub_A cache_loaded)) = Fulfilled groups_old"
    and 4: "outcome_after ([Elapse 100] @ ListingSettles (update_of sub_A cache_loaded)
        (Fails (ListingError ''throttled'')) # [Fetch])
      (step Fetch cache_loaded) (fst (fetchGroups cache_loaded)) = Fulfilled groups_old"
    by auto
  from refresh_failure_propagation [OF r3 e3, of _ "[Fetch, Elapse 600]" creds_A] n3
  have "listings (sub_id sub_proto) (run [Fetch, Elapse 600] (step Fetch cache_proto)) = 0"
    by blast
  then have 5: "listings ''constructor'' (run [Fetch, Elapse 600] (step Fetch cache_proto)) = 0"
    unfolding k3 .
  from 1 2 3 4 5 show ?thesis by blast
qed

text \<open>
  A call of \<open>updateGroups\<close> that finds no cached result, for an id that is not the name of a
  member of \<open>Object.prototype\<close>: the returned promise follows the pending \<open>loadGroups\<close> call
  and no timer is armed.  As long as the listing does not settle the returned promise is not
  settled, however much time passes; when the listing settles, the returned promise settles
  the same way.  The promise that \<open>fetchGroups\<close> returns when it makes this call behaves the
  same.
\<close>

lemma first_fetch_own_id:
  assumes "reachable s" and "sub_id sub \<notin> set object_prototype"
    and "current s (sub_id sub) = None"
    and "\<forall>e \<in> set es. \<not> settles (update_of sub s) e"
  shows "promises (snd (updateGroups creds sub s)) ! fst (updateGroups creds sub s) =
           (AsyncP, Follows (update_of sub s)) \<and>
         timers (snd (updateGroups creds sub s)) = timers s \<and>
         outcome_after es (snd (updateGroups creds sub s)) (fst (updateGroups creds sub s)) =
           Follows (update_of sub s) \<and>
         outcome_after (es @ ListingSettles (update_of sub s) oc # es')
           (snd (updateGroups creds sub s)) (fst (updateGroups creds sub s)) = settled_as oc \<and>
         (defaultSubscription s = Some sub \<and> map_of (logins s) (tenantId sub) = Some creds \<longrightarrow>
            \<not> settled (outcome_after es (step Fetch s) (fst (fetchGroups s))) \<and>
            outcome_after (es @ ListingSettles (update_of sub s) oc # es')
              (step Fetch s) (fst (fetchGroups s)) = settled_as oc)"
proof -
  have inv: "cache_inv s" using assms(1) by (rule reachable_inv)
  have "waiting (update_of sub s) (fst (updateGroups creds sub s))
          (promises (snd (updateGroups creds sub s)))"
    using inv assms(2,3) by (rule updateGroups_waiting)
  then have 1: "promises (snd (updateGroups creds sub s)) ! fst (updateGroups creds sub s) =
           (AsyncP, Follows (update_of sub s))"
    by (simp add: waiting_def)
  have 2: "timers (snd (updateGroups creds sub s)) = timers s"
    using assms(2,3) by (simp add: updateGroups_timers property_plain)
  from call_uncached [OF inv assms(2,3,4), of creds oc es']
  have 3: "outcome_after es (snd (updateGroups creds sub s)) (fst (updateGroups creds sub s)) =
           Follows (update_of sub s)"
    and 4: "outcome_after (es @ ListingSettles (update_of sub s) oc # es')
           (snd (updateGroups creds sub s)) (fst (updateGroups creds sub s)) = settled_as oc"
    by blast+
  have 5: "\<not> settled (outcome_after es (step Fetch s) (fst (fetchGroups s))) \<and>
            outcome_after (es @ ListingSettles (update_of sub s) oc # es')
              (step Fetch s) (fst (fetchGroups s)) = settled_as oc"
    if "defaultSubscription s = Some sub" "map_of (logins s) (tenantId sub) = Some creds"
    using inv that assms(2,3,4) by (rule fetch_uncached)
  from 1 2 3 4 5 show ?thesis by blast
qed

text \<open>
  The same call for an id that is the name of a member of \<open>Object.prototype\<close>.  Neither
  dictionary has an entry of its own for such an id, so there is no cached result; but
  line 60 and line 75 both read the inherited member.  The call invokes no listing, arms the
  500ms timer and returns a promise that is rejected with a \<open>TypeError\<close> from the start.
\<close>

lemma call_prototype_id:
  assumes "reachable s" and np: "sub_id sub \<in> set object_prototype"
  shows "current s (sub_id sub) = None \<and> updates s (sub_id sub) = None \<and>
         timers (snd (updateGroups creds sub s)) =
           timers s @ [(now s + 500, length (promises s), Inherited (sub_id sub))] \<and>
         listings (sub_id sub) (run es (snd (updateGroups creds sub s))) = 0 \<and>
         outcome_after es (snd (updateGroups creds sub s)) (fst (updateGroups creds sub s)) =
           Rejected TypeError"
proof -
  let ?s1 = "snd (updateGroups creds sub s)"
  let ?a = "fst (updateGroups creds sub s)"
  have inv: "cache_inv s" using assms(1) by (rule reachable_inv)
  then have "own_keys_ok s" by (simp add: cache_inv_def)
  from own_keys_okD [OF this np]
  have u: "updates s (sub_id sub) = None" and c: "current s (sub_id sub) = None"
    by simp_all
  have pu: "property (updates s) (sub_id sub) = Some (Inherited (sub_id sub))"
    and pc: "property (current s) (sub_id sub) = Some (Inherited (sub_id sub))"
    using u c np by (simp_all add: property_def)
  have t: "timers ?s1 = timers s @ [(now s + 500, length (promises s), Inherited (sub_id sub))]"
    using pu pc by (simp add: updateGroups_timers started_def)
  have l: "listings (sub_id sub) (run es ?s1) = 0"
    using listings_prototype [OF assms] np
    by (simp add: run_listings_prototype listings_updateGroups_prototype)
  have ps: "promises ?s1 = promises s @
              [(TimerP (Inherited (sub_id sub)), Pending), (AsyncP, Rejected TypeError)]"
    using pu pc by (simp add: updateGroups_promises started_def answer_def)
  have a: "?a = length (promises s) + 1"
    using ps by (simp add: updateGroups_fst)
  have al: "?a < length (promises ?s1)" and at: "promises ?s1 ! ?a = (AsyncP, Rejected TypeError)"
    unfolding a ps by (simp_all add: nth_append)
  have "settled (snd (promises ?s1 ! ?a))" using at by simp
  from run_settled [OF al this, of es] at
  have "outcome_after es ?s1 ?a = Rejected TypeError"
    by (simp add: outcome_after_def pstate_of_nth)
  with u c t l show ?thesis by blast
qed

text \<open>
  C5.  The cache is constructed while logged in, with a default subscription whose id is
  \<open>constructor\<close>.  No cached result exists for that id and no refresh is pending.  A call of
  \<open>updateGroups\<close> for it, and the call of \<open>fetchGroups\<close> that makes one, do not return a
  pending refresh: no listing is invoked, the 500ms timer is armed, and the returned promise
  is rejected with a \<open>TypeError\<close> at once, before anything settles or any time passes.
\<close>

theorem updateGroups_first_fetch_prototype_id:
  "current cache_proto (sub_id sub_proto) = None \<and>
   updates cache_proto (sub_id sub_proto) = None \<and>
   defaultSubscription cache_proto = Some sub_proto \<and>
   listings (sub_id sub_proto) (snd (updateGroups creds_A sub_proto cache_proto)) = 0 \<and>
   timers (snd (updateGroups creds_A sub_proto cache_proto)) =
     timers cache_proto @
       [(now cache_proto + 500, length (promises cache_proto), Inherited ''constructor'')] \<and>
   outcome_after [] (snd (updateGroups creds_A sub_proto cache_proto))
     (fst (updateGroups creds_A sub_proto cache_proto)) = Rejected TypeError \<and>
   listings (sub_id sub_proto) (step Fetch cache_proto) = 0 \<and>
   outcome_after [] (step Fetch cache_proto) (fst (fetchGroups cache_proto)) =
     Rejected TypeError"
  by code_simp

lemma step_current_entry:
  assumes inv: "cache_inv s" and ch: "current (step e s) k \<noteq> current s k"
  shows "\<exists>p g. e = ListingSettles p (Succeeds g) \<and> current (step e s) k = Some p \<and>
           pstate_of (promises (step e s)) p = Fulfilled g"
proof -
  from ch have "current (step e s) \<noteq> current s" by auto
  then obtain p g where e: "e = ListingSettles p (Succeeds g)"
    using step_current by blast
  have act: "p < length (promises s) \<and> is_load (fst (promises s ! p)) \<and>
             snd (promises s ! p) = Pending"
    using ch e by (cases "p < length (promises s) \<and> is_load (fst (promises s ! p)) \<and>
             snd (promises s ! p) = Pending") (simp_all add: settle_listing_idle)
  then obtain c sub where pl: "p < length (promises s)"
    and at: "promises s ! p = (LoadGroups c sub, Pending)"
    by (auto simp: is_load_iff prod_eq_iff)
  have "current (step e s) = (current s)(sub_id sub \<mapsto> p)"
    using e settle_listing_current_Succeeds [OF inv pl at] by simp
  with ch have 1: "current (step e s) k = Some p" by (auto split: if_splits)
  have "promises (step e s) ! p = (LoadGroups c sub, Fulfilled g)"
    using e pl at by (simp add: settle_listing_promises propagate_settled)
  then have 2: "pstate_of (promises (step e s)) p = Fulfilled g"
    using e pl by (simp add: pstate_of_nth)
  from e 1 2 show ?thesis by blast
qed

text \<open>
  C10.  An entry of \<open>current\<close> changes only when a listing succeeds, and the new entry is
  the promise that has just been fulfilled with the groups listed.  In every reachable
  state each entry of \<open>current\<close> is a fulfilled promise; so the promise returned by a call of
  \<open>updateGroups\<close> that finds such an entry is never rejected, whatever happens afterwards,
  and neither is the promise that \<open>fetchGroups\<close> returns when it makes this call.
\<close>

theorem cached_result_fulfilled:
  assumes "reachable s"
  shows "(\<forall>e k. current (step e s) k \<noteq> current s k \<longrightarrow>
            (\<exists>p g. e = ListingSettles p (Succeeds g) \<and> current (step e s) k = Some p \<and>
               pstate_of (promises (step e s)) p = Fulfilled g)) \<and>
         (\<forall>cur. current s (sub_id sub) = Some cur \<longrightarrow>
            (\<exists>g. pstate_of (promises s) cur = Fulfilled g) \<and>
            outcome_after es (snd (updateGroups creds sub s)) (fst (updateGroups creds sub s))
              \<noteq> Rejected err \<and>
            (defaultSubscription s = Some sub \<and> map_of (logins s) (tenantId sub) = Some creds \<longrightarrow>
               outcome_after es (step Fetch s) (fst (fetchGroups s)) \<noteq> Rejected err))"
proof -
  have inv: "cache_inv s" using assms(1) by (rule reachable_inv)
  have 1: "\<exists>p g. e = ListingSettles p (Succeeds g) \<and> current (step e s) k = Some p \<and>
               pstate_of (promises (step e s)) p = Fulfilled g"
    if "current (step e s) k \<noteq> current s k" for e k
    using inv that by (rule step_current_entry)
  have 2: "(\<exists>g. pstate_of (promises s) cur = Fulfilled g) \<and>
            outcome_after es (snd (updateGroups creds sub s)) (fst (updateGroups creds sub s))
              \<noteq> Rejected err \<and>
            (defaultSubscription s = Some sub \<and> map_of (logins s) (tenantId sub) = Some creds \<longrightarrow>
               outcome_after es (step Fetch s) (fst (fetchGroups s)) \<noteq> Rejected err)"
    if cur: "current s (sub_id sub) = Some cur" for cur
  proof -
    from cached_fulfilled [OF inv cur] obtain g0
      where p: "pstate_of (promises s) cur = Fulfilled g0"
        and g0: "snd (promises s ! cur) = Fulfilled g0" .
    have no: "\<forall>e \<in> set []. \<not> settles (update_of sub s) e" by simp
    from call_cached [OF inv cur g0 no, of "[]" creds _ err es]
    have a: "outcome_after es (snd (updateGroups creds sub s)) (fst (updateGroups creds sub s))
              \<noteq> Rejected err"
      by blast
    have b: "outcome_after es (step Fetch s) (fst (fetchGroups s)) \<noteq> Rejected err"
      if "defaultSubscription s = Some sub" "map_of (logins s) (tenantId sub) = Some creds"
      using fetch_cached [OF inv that cur g0 no, of "[]" _ err es] by blast
    from p a b show ?thesis by blast
  qed
  from 1 2 show ?thesis by blast
qed

theorem cached_result_fulfilled_witness:
  "current cache_loaded ''sub-a'' \<noteq> current cache_started ''sub-a'' \<and>
   current cache_loaded ''sub-a'' = Some 0 \<and>
   pstate_of (promises cache_loaded) 0 = Fulfilled groups_old \<and>
   outcome_after [Elapse 100, ListingSettles 2 (Fails (ListingError ''offline'')), Elapse 900]
     (snd (updateGroups creds_A sub_A cache_loaded))
     (fst (updateGroups creds_A sub_A cache_loaded)) \<noteq> Rejected (ListingError ''offline'') \<and>
   outcome_after [Elapse 100, ListingSettles 2 (Fails (ListingError ''offline'')), Elapse 900]
     (step Fetch cache_loaded) (fst (fetchGroups cache_loaded)) \<noteq>
     Rejected (ListingError ''offline'')"
proof -
  have r1: "reachable cache_started"
    unfolding cache_started_def by (intro reachable.intros)
  have r2: "reachable cache_loaded"
    unfolding cache_loaded_def cache_started_def by (intro reachable.intros)
  have c: "current cache_loaded (sub_id sub_A) = Some 0" by code_simp
  have c': "current cache_loaded ''sub-a'' = Some 0" by code_simp
  have n: "current cache_started ''sub-a'' = None" by code_simp
  have g: "pstate_of (promises cache_loaded) 0 = Fulfilled groups_old" by code_simp
  have d: "defaultSubscription cache_loaded = Some sub_A \<and>
           map_of (logins cache_loaded) (tenantId sub_A) = Some creds_A" by code_simp
  have ch: "current (step (ListingSettles 0 (Succeeds groups_old)) cache_started) ''sub-a'' \<noteq>
            current cache_started ''sub-a''"
    using c' n by (simp add: cache_loaded_def)
  from cached_result_fulfilled [OF r1, of sub_A] ch
  have 1: "current (step (ListingSettles 0 (Succeeds groups_old)) cache_started) ''sub-a'' = Some 0"
    by blast
  from cached_result_fulfilled [OF r2, of sub_A
      "[Elapse 100, ListingSettles 2 (Fails (ListingError ''offline'')), Elapse 900]"
      creds_A "ListingError ''offline''"] c d
  have 2: "outcome_after
      [Elapse 100, ListingSettles 2 (Fails (ListingError ''offline'')), Elapse 900]
     (snd (updateGroups creds_A sub_A cache_loaded))
     (fst (updateGroups creds_A sub_A cache_loaded)) \<noteq> Rejected (ListingError ''offline'')"
    and 3: "outcome_after
      [Elapse 100, ListingSettles 2 (Fails (ListingError ''offline'')), Elapse 900]
     (step Fetch cache_loaded) (fst (fetchGroups cache_loaded)) \<noteq>
     Rejected (ListingError ''offline'')"
    by blast+
  from ch 1 g 2 3 show ?thesis by (simp add: cache_loaded_def)
qed

section \<open>\<open>fetchGroups\<close>\<close>

lemma fetchGroups_rejects:
  assumes "fetchGroups s = (length (promises s), s')"
    "promises s' = promises s @ [(AsyncP, Rejected e)]"
  shows "outcome_after es (step Fetch s) (fst (fetchGroups s)) = Rejected e"
proof -
  let ?n = "length (promises s)"
  have 1: "?n < length (promises (step Fetch s))" using assms by simp
  have "promises (step Fetch s) ! ?n = (promises s @ [(AsyncP, Rejected e)]) ! ?n"
    using assms by (simp add: propagate_settled)
  then have 2: "promises (step Fetch s) ! ?n = (AsyncP, Rejected e)" by simp
  from run_settled [OF 1, of es] 2
  show ?thesis using assms(1) by (simp add: outcome_after_def pstate_of_nth)
qed

text \<open>
  C7.  \<open>fetchGroups\<close> with no default subscription, or with a default subscription for whose
  tenant no credentials are found, returns a promise rejected with the \<open>UIError\<close> that tells
  the user to log in, and does nothing else (beyond the lookup): in particular no remote
  listing is invoked.  Otherwise it calls \<open>updateGroups\<close> with the credentials found and the
  stored subscription and returns a promise resolved with the promise of that call, which
  from then on is unsettled while that promise is and settled as that promise is.
\<close>

theorem fetchGroups_unauthenticated:
  "(defaultSubscription s = None \<longrightarrow>
      fetchGroups s =
        (length (promises s),
         s\<lparr>promises := promises s @ [(AsyncP, Rejected (UIError not_logged_in))]\<rparr>) \<and>
      listings k (snd (fetchGroups s)) = listings k s \<and>
      outcome_after es (step Fetch s) (fst (fetchGroups s)) = Rejected (UIError not_logged_in)) \<and>
   (\<forall>sub. defaultSubscription s = Some sub \<and> map_of (logins s) (tenantId sub) = None \<longrightarrow>
      fetchGroups s =
        (length (promises s),
         s\<lparr>lookups := lookups s @ [tenantId sub],
           promises := promises s @ [(AsyncP, Rejected (UIError not_logged_in))]\<rparr>) \<and>
      listings k (snd (fetchGroups s)) = listings k s \<and>
      outcome_after es (step Fetch s) (fst (fetchGroups s)) = Rejected (UIError not_logged_in)) \<and>
   (\<forall>sub creds. defaultSubscription s = Some sub \<and>
        map_of (logins s) (tenantId sub) = Some creds \<longrightarrow>
      fetchGroups s =
        new_promise AsyncP
          (Follows (fst (updateGroups creds sub (s\<lparr>lookups := lookups s @ [tenantId sub]\<rparr>))))
          (snd (updateGroups creds sub (s\<lparr>lookups := lookups s @ [tenantId sub]\<rparr>))) \<and>
      outcome_after es (step Fetch s) (fst (fetchGroups s)) =
        (if settled (outcome_after es (step Fetch s)
               (fst (updateGroups creds sub (s\<lparr>lookups := lookups s @ [tenantId sub]\<rparr>))))
         then outcome_after es (step Fetch s)
               (fst (updateGroups creds sub (s\<lparr>lookups := lookups s @ [tenantId sub]\<rparr>)))
         else Follows (fst (updateGroups creds sub (s\<lparr>lookups := lookups s @ [tenantId sub]\<rparr>)))))"
proof (intro conjI allI impI)
  assume d: "defaultSubscription s = None"
  then show 1: "fetchGroups s =
        (length (promises s),
         s\<lparr>promises := promises s @ [(AsyncP, Rejected (UIError not_logged_in))]\<rparr>)"
    by (simp add: fetchGroups_def new_promise_def)
  show "listings k (snd (fetchGroups s)) = listings k s"
    unfolding 1 by (simp add: listings_def)
  show "outcome_after es (step Fetch s) (fst (fetchGroups s)) = Rejected (UIError not_logged_in)"
    using 1 by (rule fetchGroups_rejects) simp
next
  fix sub
  assume d: "defaultSubscription s = Some sub \<and> map_of (logins s) (tenantId sub) = None"
  then show 1: "fetchGroups s =
        (length (promises s),
         s\<lparr>lookups := lookups s @ [tenantId sub],
           promises := promises s @ [(AsyncP, Rejected (UIError not_logged_in))]\<rparr>)"
    by (simp add: fetchGroups_def lookupCredentials_def new_promise_def)
  show "listings k (snd (fetchGroups s)) = listings k s"
    unfolding 1 by (simp add: listings_def)
  show "outcome_after es (step Fetch s) (fst (fetchGroups s)) = Rejected (UIError not_logged_in)"
    using 1 by (rule fetchGroups_rejects) simp
next
  fix sub creds
  assume d: "defaultSubscription s = Some sub \<and> map_of (logins s) (tenantId sub) = Some creds"
  then have d1: "defaultSubscription s = Some sub"
    and d2: "map_of (logins s) (tenantId sub) = Some creds" by simp_all
  have l: "snd (lookupCredentials (tenantId sub) s) = s\<lparr>lookups := lookups s @ [tenantId sub]\<rparr>"
    by (simp add: lookupCredentials_def)
  show "fetchGroups s =
        new_promise AsyncP
          (Follows (fst (updateGroups creds sub (s\<lparr>lookups := lookups s @ [tenantId sub]\<rparr>))))
          (snd (updateGroups creds sub (s\<lparr>lookups := lookups s @ [tenantId sub]\<rparr>)))"
    using fetchGroups_delegates [OF d1 d2] unfolding l .
  show "outcome_after es (step Fetch s) (fst (fetchGroups s)) =
        (if settled (outcome_after es (step Fetch s)
               (fst (updateGroups creds sub (s\<lparr>lookups := lookups s @ [tenantId sub]\<rparr>))))
         then outcome_after es (step Fetch s)
               (fst (updateGroups creds sub (s\<lparr>lookups := lookups s @ [tenantId sub]\<rparr>)))
         else Follows (fst (updateGroups creds sub (s\<lparr>lookups := lookups s @ [tenantId sub]\<rparr>))))"
    using synced_outcome [OF fetchGroups_synced [OF d1 d2], of es] unfolding l .
qed

theorem fetchGroups_unauthenticated_witness:
  "outcome_after [Elapse 100, Fetch] (step Fetch cache_empty) (fst (fetchGroups cache_empty)) =
     Rejected (UIError not_logged_in) \<and>
   listings ''sub-a'' (snd (fetchGroups cache_empty)) = listings ''sub-a'' cache_empty \<and>
   outcome_after [Elapse 100, Fetch] (step Fetch cache_logged_out)
     (fst (fetchGroups cache_logged_out)) = Rejected (UIError not_logged_in) \<and>
   listings ''sub-a'' (snd (fetchGroups cache_logged_out)) = listings ''sub-a'' cache_logged_out \<and>
   fetchGroups cache_loaded =
     new_promise AsyncP
       (Follows (fst (updateGroups creds_A sub_A
                   (cache_loaded\<lparr>lookups := lookups cache_loaded @ [tenantId sub_A]\<rparr>))))
       (snd (updateGroups creds_A sub_A
               (cache_loaded\<lparr>lookups := lookups cache_loaded @ [tenantId sub_A]\<rparr>)))"
proof -
  have d1: "defaultSubscription cache_empty = None" by code_simp
  have d2: "defaultSubscription cache_logged_out = Some sub_A \<and>
            map_of (logins cache_logged_out) (tenantId sub_A) = None" by code_simp
  have d3: "defaultSubscription cache_loaded = Some sub_A \<and>
            map_of (logins cache_loaded) (tenantId sub_A) = Some creds_A" by code_simp
  from fetchGroups_unauthenticated [of cache_empty "''sub-a''" "[Elapse 100, Fetch]"] d1
  have 1: "outcome_after [Elapse 100, Fetch] (step Fetch cache_empty)
       (fst (fetchGroups cache_empty)) = Rejected (UIError not_logged_in)"
    and 2: "listings ''sub-a'' (snd (fetchGroups cache_empty)) = listings ''sub-a'' cache_empty"
    by blast+
  from fetchGroups_unauthenticated [of cache_logged_out "''sub-a''" "[Elapse 100, Fetch]"] d2
  have 3: "outcome_after [Elapse 100, Fetch] (step Fetch cache_logged_out)
       (fst (fetchGroups cache_logged_out)) = Rejected (UIError not_logged_in)"
    and 4: "listings ''sub-a'' (snd (fetchGroups cache_logged_out)) =
            listings ''sub-a'' cache_logged_out"
    by blast+
  from fetchGroups_unauthenticated [of cache_loaded "''sub-a''" "[]"] d3
  have 5: "fetchGroups cache_loaded =
     new_promise AsyncP
       (Follows (fst (updateGroups creds_A sub_A
                   (cache_loaded\<lparr>lookups := lookups cache_loaded @ [tenantId sub_A]\<rparr>))))
       (snd (updateGroups creds_A sub_A
               (cache_loaded\<lparr>lookups := lookups cache_loaded @ [tenantId sub_A]\<rparr>)))"
    by blast
  from 1 2 3 4 5 show ?thesis by blast
qed

section \<open>Redundant notifications\<close>

lemma drain_quiescent: "propagate (promises s) = promises s \<Longrightarrow> drain s = s"
  by (simp add: drain_def)

text \<open>
  C8.  A notification whose default subscription has the identifier of the stored one (both
  may be absent) leaves the whole state as it is: the stored default, \<open>updates\<close>, \<open>current\<close>,
  the promises (so no \<open>loadGroups\<close> call is made) and the record of credential lookups.
  Whenever \<open>onSubscriptionUpdated\<close> does replace the stored default, the identifiers differed.
  As an event in a reachable state, such a notification changes nothing but the list of the
  subscription watcher.
\<close>

theorem onSubscriptionUpdated_redundant:
  "(map_option sub_id (defaultSubscription s) =
      map_option sub_id (find isDefault (subscriptions s)) \<longrightarrow>
    onSubscriptionUpdated s = s) \<and>
   (defaultSubscription (onSubscriptionUpdated s) \<noteq> defaultSubscription s \<longrightarrow>
    map_option sub_id (defaultSubscription s) \<noteq>
      map_option sub_id (find isDefault (subscriptions s))) \<and>
   (reachable s \<and>
    map_option sub_id (defaultSubscription s) = map_option sub_id (find isDefault subs) \<longrightarrow>
    step (SubscriptionsUpdated subs) s = s\<lparr>subscriptions := subs\<rparr>)"
proof (intro conjI impI)
  assume "map_option sub_id (defaultSubscription s) =
      map_option sub_id (find isDefault (subscriptions s))"
  then show "onSubscriptionUpdated s = s" by (rule onSubscriptionUpdated_same)
next
  assume "defaultSubscription (onSubscriptionUpdated s) \<noteq> defaultSubscription s"
  then show "map_option sub_id (defaultSubscription s) \<noteq>
      map_option sub_id (find isDefault (subscriptions s))"
    using onSubscriptionUpdated_same [of s] by auto
next
  assume a: "reachable s \<and>
    map_option sub_id (defaultSubscription s) = map_option sub_id (find isDefault subs)"
  then have "onSubscriptionUpdated (s\<lparr>subscriptions := subs\<rparr>) = s\<lparr>subscriptions := subs\<rparr>"
    by (intro onSubscriptionUpdated_same) simp
  moreover have "propagate (promises (s\<lparr>subscriptions := subs\<rparr>)) =
                 promises (s\<lparr>subscriptions := subs\<rparr>)"
    using a reachable_quiescent [of s] by simp
  ultimately show "step (SubscriptionsUpdated subs) s = s\<lparr>subscriptions := subs\<rparr>"
    by (simp add: drain_quiescent)
qed

theorem onSubscriptionUpdated_redundant_witness:
  "onSubscriptionUpdated cache_loaded = cache_loaded \<and>
   onSubscriptionUpdated cache_empty = cache_empty \<and>
   step (SubscriptionsUpdated [sub_A_moved]) cache_loaded =
     cache_loaded\<lparr>subscriptions := [sub_A_moved]\<rparr> \<and>
   defaultSubscription (onSubscriptionUpdated (cache_loaded\<lparr>subscriptions := []\<rparr>)) \<noteq>
     defaultSubscription (cache_loaded\<lparr>subscriptions := []\<rparr>) \<and>
   map_option sub_id (defaultSubscription (cache_loaded\<lparr>subscriptions := []\<rparr>)) \<noteq>
     map_option sub_id (find isDefault (subscriptions (cache_loaded\<lparr>subscriptions := []\<rparr>)))"
proof -
  have r: "reachable cache_loaded"
    unfolding cache_loaded_def cache_started_def by (intro reachable.intros)
  have 1: "map_option sub_id (defaultSubscription cache_loaded) =
     map_option sub_id (find isDefault (subscriptions cache_loaded))"
    by code_simp
  have 2: "map_option sub_id (defaultSubscription cache_empty) =
     map_option sub_id (find isDefault (subscriptions cache_empty))"
    by code_simp
  have 3: "map_option sub_id (defaultSubscription cache_loaded) =
     map_option sub_id (find isDefault [sub_A_moved])"
    by code_simp
  have 4: "defaultSubscription (onSubscriptionUpdated (cache_loaded\<lparr>subscriptions := []\<rparr>)) \<noteq>
     defaultSubscription (cache_loaded\<lparr>subscriptions := []\<rparr>)"
    by code_simp
  show ?thesis
    using r 1 2 3 4 onSubscriptionUpdated_redundant [of cache_loaded "[sub_A_moved]"]
      onSubscriptionUpdated_redundant [of cache_empty "[]"]
      onSubscriptionUpdated_redundant [of "cache_loaded\<lparr>subscriptions := []\<rparr>" "[]"]
    by blast
qed

section \<open>One refresh at a time\<close>

lemma updateGroups_all_listings_prototype:
  "k \<in> set object_prototype \<Longrightarrow> listings k (updateGroups_all calls s) = listings k s"
  by (induction calls s rule: updateGroups_all.induct)
     (simp_all add: listings_updateGroups_prototype)

lemma fetchGroups_starts:
  assumes d: "defaultSubscription s = Some sub" "map_of (logins s) (tenantId sub) = Some creds"
    and u: "property (updates s) (sub_id sub) = None"
  shows "updates (step Fetch s) (sub_id sub) = Some (length (promises s)) \<and>
         listings (sub_id sub) (step Fetch s) = listings (sub_id sub) s + 1"
  using u
  by (simp add: fetchGroups_delegates [OF d] updateGroups_updates_property
        listings_updateGroups)

text \<open>
  C1.  In every reachable state at most one \<open>loadGroups\<close> call is pending for a subscription
  id.  A call of \<open>updateGroups\<close> that finds an entry in \<open>updates\<close> works with that promise and
  leaves \<open>updates\<close> as it is.  While the refresh for \<open>k\<close> is pending, nothing that happens
  (calls of \<open>fetchGroups\<close>, notifications, timers, other listings settling) invokes the remote
  listing for \<open>k\<close> again; any number of calls of \<open>updateGroups\<close> for \<open>k\<close> made one after the
  other invoke it once if no refresh was pending and not at all otherwise; and a call of
  \<open>fetchGroups\<close> that starts a refresh, followed by any events in which that refresh does not
  settle, invokes it once.  An id that is the name of a member of \<open>Object.prototype\<close> never
  has a pending refresh: line 60 reads the inherited member, so no call starts one and the
  remote listing is never invoked for it.
\<close>

theorem one_refresh_per_subscription:
  assumes "reachable s"
  shows "(\<forall>i j c1 sub1 c2 sub2.
            i < length (promises s) \<and> j < length (promises s) \<and>
            promises s ! i = (LoadGroups c1 sub1, Pending) \<and>
            promises s ! j = (LoadGroups c2 sub2, Pending) \<and> sub_id sub1 = sub_id sub2
            \<longrightarrow> i = j) \<and>
         (\<forall>u. updates s (sub_id sub) = Some u \<longrightarrow>
            update_of sub s = u \<and> updates (snd (updateGroups creds sub s)) = updates s) \<and>
         (\<forall>u. updates s k = Some u \<and> (\<forall>e \<in> set es. \<not> settles u e) \<longrightarrow>
            updates (run es s) k = Some u \<and> listings k (run es s) = listings k s) \<and>
         ((\<forall>call \<in> set calls. sub_id (snd call) = k) \<and> calls \<noteq> [] \<longrightarrow>
            listings k (updateGroups_all calls s) =
              listings k s +
                (if updates s k = None \<and> k \<notin> set object_prototype then 1 else 0)) \<and>
         (defaultSubscription s = Some sub \<and> map_of (logins s) (tenantId sub) = Some creds \<and>
          updates s (sub_id sub) = None \<and> sub_id sub \<notin> set object_prototype \<and>
          (\<forall>e \<in> set es. \<not> settles (length (promises s)) e) \<longrightarrow>
            listings (sub_id sub) (run (Fetch # es) s) = listings (sub_id sub) s + 1) \<and>
         (k \<in> set object_prototype \<longrightarrow>
            updates s k = None \<and> listings k s = 0 \<and> listings k (run es s) = 0 \<and>
            listings k (updateGroups_all calls s) = 0)"
proof (intro conjI allI impI)
  have inv: "cache_inv s" using assms by (rule reachable_inv)
  then have l: "loads_ok s" by (simp add: cache_inv_def)
  {
    fix i j c1 sub1 c2 sub2
    assume a: "i < length (promises s) \<and> j < length (promises s) \<and>
            promises s ! i = (LoadGroups c1 sub1, Pending) \<and>
            promises s ! j = (LoadGroups c2 sub2, Pending) \<and> sub_id sub1 = sub_id sub2"
    then have "updates s (sub_id sub1) = Some i" "updates s (sub_id sub2) = Some j"
      using loads_okD [OF l] by blast+
    with a show "i = j" by simp
  }
  {
    fix u
    assume u: "updates s (sub_id sub) = Some u"
    then show "update_of sub s = u" by (simp add: update_of_def)
    show "updates (snd (updateGroups creds sub s)) = updates s"
      using u by (simp add: updateGroups_updates_property)
  }
  {
    fix u
    assume u: "updates s k = Some u \<and> (\<forall>e \<in> set es. \<not> settles u e)"
    then have "updates (run es s) k = Some u \<and> listings k (run es s) = listings k s"
      using run_pending [OF inv, of k u es] by simp
    then show "updates (run es s) k = Some u" "listings k (run es s) = listings k s"
      by simp_all
  }
  {
    assume "(\<forall>call \<in> set calls. sub_id (snd call) = k) \<and> calls \<noteq> []"
    then show "listings k (updateGroups_all calls s) =
                 listings k s +
                   (if updates s k = None \<and> k \<notin> set object_prototype then 1 else 0)"
      using updateGroups_all_listings [of calls k s] by (simp add: property_None_iff)
  }
  {
    assume a: "defaultSubscription s = Some sub \<and> map_of (logins s) (tenantId sub) = Some creds \<and>
          updates s (sub_id sub) = None \<and> sub_id sub \<notin> set object_prototype \<and>
          (\<forall>e \<in> set es. \<not> settles (length (promises s)) e)"
    then have "property (updates s) (sub_id sub) = None" by (simp add: property_None_iff)
    with a have st: "updates (step Fetch s) (sub_id sub) = Some (length (promises s))"
      and ls: "listings (sub_id sub) (step Fetch s) = listings (sub_id sub) s + 1"
      using fetchGroups_starts [of s sub creds] by blast+
    have "cache_inv (step Fetch s)" using inv by (rule step_inv)
    from run_pending [OF this st, of es] a ls
    show "listings (sub_id sub) (run (Fetch # es) s) = listings (sub_id sub) s + 1"
      by (simp add: run_Cons del: step.simps)
  }
  {
    assume kp: "k \<in> set object_prototype"
    have "own_keys_ok s" using inv by (simp add: cache_inv_def)
    from own_keys_okD [OF this kp] show "updates s k = None" by simp
    show 0: "listings k s = 0" using assms kp by (rule listings_prototype)
    show "listings k (run es s) = 0" using 0 kp by (simp add: run_listings_prototype)
    show "listings k (updateGroups_all calls s) = 0"
      using 0 kp by (simp add: updateGroups_all_listings_prototype)
  }
qed

theorem one_refresh_per_subscription_witness:
  "updates cache_started ''sub-a'' = Some 0 \<and>
   listings ''sub-a'' cache_started = 1 \<and>
   listings ''sub-a''
     (run [Fetch, SubscriptionsUpdated [], Fetch, Elapse 600, SubscriptionsUpdated [sub_A], Fetch]
        cache_started) = 1 \<and>
   updates cache_loaded ''sub-a'' = None \<and>
   listings ''sub-a'' cache_loaded = 1 \<and>
   listings ''sub-a''
     (updateGroups_all [(creds_A, sub_A), (creds_A, sub_A_moved), (creds_A, sub_A)] cache_loaded) = 2 \<and>
   listings ''sub-a'' (run (Fetch # [Fetch, Elapse 100, Fetch, Elapse 900, Fetch]) cache_loaded) = 2 \<and>
   listings ''constructor'' (run [Fetch, Elapse 600, Fetch] cache_proto) = 0 \<and>
   listings ''constructor''
     (updateGroups_all [(creds_A, sub_proto), (creds_A, sub_proto)] cache_proto) = 0"
proof -
  have r1: "reachable cache_started"
    unfolding cache_started_def by (intro reachable.intros)
  have r2: "reachable cache_loaded"
    unfolding cache_loaded_def cache_started_def by (intro reachable.intros)
  have r3: "reachable cache_proto"
    unfolding cache_proto_def by (intro reachable.intros)
  have p: "''sub-a'' \<notin> set object_prototype" by code_simp
  have p': "''constructor'' \<in> set object_prototype" by code_simp
  have u1: "updates cache_started ''sub-a'' = Some 0" by code_simp
  have u2: "updates cache_loaded ''sub-a'' = None" by code_simp
  have l1: "listings ''sub-a'' cache_started = 1" by code_simp
  have l2: "listings ''sub-a'' cache_loaded = 1" by code_simp
  have k: "sub_id sub_A = ''sub-a''" by (simp add: sub_A_def)
  have d: "defaultSubscription cache_loaded = Some sub_A \<and>
           map_of (logins cache_loaded) (tenantId sub_A) = Some creds_A" by code_simp
  have n: "length (promises cache_loaded) = 2" by code_simp
  have e: "\<forall>e \<in> set [Fetch, SubscriptionsUpdated [], Fetch, Elapse 600,
             SubscriptionsUpdated [sub_A], Fetch]. \<not> settles 0 e"
    by simp
  have e': "\<forall>e \<in> set [Fetch, Elapse 100, Fetch, Elapse 900, Fetch].
              \<not> settles (length (promises cache_loaded)) e"
    by simp
  have c: "(\<forall>call \<in> set [(creds_A, sub_A), (creds_A, sub_A_moved), (creds_A, sub_A)].
             sub_id (snd call) = ''sub-a'') \<and>
           [(creds_A, sub_A), (creds_A, sub_A_moved), (creds_A, sub_A)] \<noteq> []"
    by (simp add: sub_A_def sub_A_moved_def)
  from one_refresh_per_subscription [OF r1, of sub_A creds_A "''sub-a''"
      "[Fetch, SubscriptionsUpdated [], Fetch, Elapse 600, SubscriptionsUpdated [sub_A], Fetch]" "[]"]
    u1 e l1
  have 1: "listings ''sub-a''
     (run [Fetch, SubscriptionsUpdated [], Fetch, Elapse 600, SubscriptionsUpdated [sub_A], Fetch]
        cache_started) = 1"
    by simp
  from one_refresh_per_subscription [OF r2, of sub_A creds_A "''sub-a''"
      "[Fetch, Elapse 100, Fetch, Elapse 900, Fetch]"
      "[(creds_A, sub_A), (creds_A, sub_A_moved), (creds_A, sub_A)]"] c u2 l2 d e' k p
  have 2: "listings ''sub-a''
     (updateGroups_all [(creds_A, sub_A), (creds_A, sub_A_moved), (creds_A, sub_A)] cache_loaded) = 2"
    and 3: "listings ''sub-a''
     (run (Fetch # [Fetch, Elapse 100, Fetch, Elapse 900, Fetch]) cache_loaded) = 2"
    by simp_all
  from one_refresh_per_subscription [OF r3, of sub_proto creds_A "''constructor''"
      "[Fetch, Elapse 600, Fetch]" "[(creds_A, sub_proto), (creds_A, sub_proto)]"] p'
  have 4: "listings ''constructor'' (run [Fetch, Elapse 600, Fetch] cache_proto) = 0"
    and 5: "listings ''constructor''
     (updateGroups_all [(creds_A, sub_proto), (creds_A, sub_proto)] cache_proto) = 0"
    by blast+
  from u1 l1 1 u2 l2 2 3 4 5 show ?thesis by blast
qed


end
